theory Spec2Isabelle
  imports Main "HOL-Library.Word" "HOL-Library.Char_ord" "HOL-Library.List_Lexorder"
begin

section \<open>Failures and the checking macros (serialization\_impl.h)\<close>

text \<open>
  The error codes the source names in its checks
  (\<^verbatim>\<open>detail::serialization_error::error_code::...\<close>).
\<close>

datatype error_code =
    size_mismatch | invalid_variant | invalid_index | null_pointer
  | missing_field | registry_not_found | recursion_limit

text \<open>
  What a call of the library can end in, apart from returning:
  \<^item> \<open>thrown c\<close>: a serialization error with code \<open>c\<close> (what \<^verbatim>\<open>SERIALIZATION_THROW\<close>
    would raise if its body raised anything);
  \<^item> \<open>backing_error\<close>: an exception of the backing itself (a JSON \<^verbatim>\<open>type_error\<close>, a read
    past the end of the stream or at the wrong item kind);
  \<^item> \<open>undefined_behaviour\<close>: a null dereference or an out-of-bounds array read;
  \<^item> \<open>terminate\<close>: \<^verbatim>\<open>throw;\<close> with no active exception;
  \<^item> \<open>compile_error\<close>: the instantiation is rejected by a \<^verbatim>\<open>static_assert\<close> or has no
    matching overload, so there is no run at all;
  \<^item> \<open>ill_typed\<close>: the value handed to the model does not inhabit the static type (no C++
    program does this);
  \<^item> \<open>out_of_fuel\<close>: the recursion budget of the model of \<^verbatim>\<open>load\<close> ran out.
\<close>

datatype failure =
    thrown error_code | backing_error | undefined_behaviour | terminate
  | compile_error | ill_typed | out_of_fuel

text \<open>
  \<^verbatim>\<open>#define SERIALIZATION_THROW(code, ...)\<close> has an empty replacement list: the statement
  it expands to does nothing, and control falls through.
\<close>

definition SERIALIZATION_THROW :: "error_code \<Rightarrow> failure + unit" where
  "SERIALIZATION_THROW code = Inr ()"

text \<open>
  \<^verbatim>\<open>SERIALIZATION_CHECK(condition, code, ...)\<close>:
  \<^verbatim>\<open>do { if (!(condition)) { SERIALIZATION_THROW(code, ...); } } while (false)\<close>.
\<close>

definition SERIALIZATION_CHECK :: "bool \<Rightarrow> error_code \<Rightarrow> failure + unit" where
  "SERIALIZATION_CHECK condition code =
     (if \<not> condition then SERIALIZATION_THROW code else Inr ())"

section \<open>Static types and values\<close>

text \<open>
  The templates dispatch on the static type \<open>T\<close>; one type code stands for one
  instantiation. \<open>TInt\<close> stands for an integral type and \<open>VInt\<close> for a value in its range
  (floating point is left out). Containers carry the kind of the standard container, which
  decides what \<^verbatim>\<open>emplace\<close> does.
\<close>

datatype ckind = ordered_unique | unordered_unique

datatype ty =
    TInt | TBool | TString | TCString | TMonostate
  | TVector ty | TSet ckind ty | TMap ckind ty ty | TArray nat ty
  | TPair ty ty | TTuple "ty list" | TOptional ty | TVariant "ty list"
  | TUnique ty | TShared ty | TClass string

datatype val =
    VInt int | VBool bool | VString string | VCString "string option" | VMonostate
  | VSeq "val list"
  | VMap "(val \<times> val) list"
  | VPair val val | VTuple "val list"
  | VOptional "val option"
  | VVariant nat val | VValueless
  | VPtr "val option"
  | VObject string "(string \<times> val) list"

text \<open>
  \<open>VSeq\<close> lists the elements of a vector, set or array in iteration order, \<open>VMap\<close> the
  key/value pairs of a map in iteration order; \<open>VPtr None\<close> is a null handle;
  \<open>VObject dyn fields\<close> is an object whose dynamic class is \<open>dyn\<close>, with all its data
  members (inherited ones too) by name.
\<close>

section \<open>Reflection descriptors (reflection.h, serialization\_macros.h)\<close>

text \<open>
  \<^verbatim>\<open>reflection_impl<Class, T>\<close> (a named member of type \<open>T\<close>) and
  \<^verbatim>\<open>reflection_empty<Class>\<close> (a name only).
\<close>

datatype property = reflection_impl string ty | reflection_empty string

fun name :: "property \<Rightarrow> string" where
  "name (reflection_impl n t) = n"
| "name (reflection_empty n) = n"

text \<open>\<^verbatim>\<open>#define REFLECTION(T, t) serialization::reflection(&T::t, #t)\<close>: the macro argument
  is a member, given here by its name and declared type.\<close>

definition REFLECTION :: "string \<times> ty \<Rightarrow> property" where
  "REFLECTION arg = reflection_impl (fst arg) (snd arg)"

definition reflection_no_member :: property where
  "reflection_no_member = reflection_empty ''''"

text \<open>
  \<^verbatim>\<open>MAKE_T_ARG_LIST_1(op, T, arg, ...) op(T, arg)\<close> and
  \<^verbatim>\<open>MAKE_T_ARG_LIST_k(op, T, arg, ...) op(T, arg), MAKE_T_ARG_LIST_(k-1)(op, T, __VA_ARGS__)\<close>
  for \<open>k\<close> from 2 to 100; \<^verbatim>\<open>GET_ARG_COUNT\<close> counts up to 100 arguments. Outside these
  bounds the macro does not expand (\<open>None\<close>).
\<close>

fun MAKE_T_ARG_LIST :: "nat \<Rightarrow> ('a \<Rightarrow> 'b) \<Rightarrow> 'a list \<Rightarrow> 'b list option" where
  "MAKE_T_ARG_LIST 0 op args = None"
| "MAKE_T_ARG_LIST (Suc 0) op args =
     (case args of [] \<Rightarrow> None | arg # rest \<Rightarrow> Some [op arg])"
| "MAKE_T_ARG_LIST (Suc (Suc k)) op args =
     (if 100 < Suc (Suc k) then None
      else case args of
             [] \<Rightarrow> None
           | arg # rest \<Rightarrow>
               (case MAKE_T_ARG_LIST (Suc k) op rest of
                  None \<Rightarrow> None
                | Some ps \<Rightarrow> Some (op arg # ps)))"

definition GET_ARG_COUNT :: "'a list \<Rightarrow> nat" where
  "GET_ARG_COUNT args = length args"

text \<open>The reflection macro a class body contains, if any.\<close>

datatype reflection_macro =
    SERIALIZATION_MACRO "(string \<times> ty) list"
  | SERIALIZATION_MACRO_EMPTY
  | SERIALIZATION_MACRO_DERIVED string "(string \<times> ty) list"
  | no_macro

text \<open>
  A class declaration: its name (the demangled \<^verbatim>\<open>typeid\<close> name), whether it has a virtual
  member (\<^verbatim>\<open>std::is_polymorphic_v\<close>), its reflection macro, the members of a
  default-constructed object, and its \<^verbatim>\<open>initialize()\<close> member, a function on the members.
\<close>

record class_decl =
  cname :: string
  polymorphic :: bool
  macro :: reflection_macro
  default_members :: "(string \<times> val) list"
  initialize :: "(string \<times> val) list \<Rightarrow> (string \<times> val) list"

text \<open>
  \<^verbatim>\<open>T::properties()\<close>, the descriptor. The class table lists the declarations of a
  translation unit, latest first; a parent is looked up among the declarations before the
  child's. \<open>None\<close>: \<open>T\<close> has no \<^verbatim>\<open>properties()\<close> (it is not \<^verbatim>\<open>Reflectable\<close>).
  \<^item> \<^verbatim>\<open>REFLECTION_META_DATA_IMPL\<close>: \<^verbatim>\<open>std::make_tuple(__VA_ARGS__)\<close>;
  \<^item> \<^verbatim>\<open>REFLECTION_META_DATA_IMPL_EMPTY\<close>:
    \<^verbatim>\<open>std::make_tuple(serialization::reflection_no_member<T>())\<close>;
  \<^item> \<^verbatim>\<open>REFLECTION_META_DATA_DERIVED_IMPL\<close>:
    \<^verbatim>\<open>std::tuple_cat(ParentClass::properties(), std::make_tuple(__VA_ARGS__))\<close>.
\<close>

fun properties :: "class_decl list \<Rightarrow> string \<Rightarrow> property list option" where
  "properties [] T = None"
| "properties (d # ds) T =
     (if cname d = T then
        (case macro d of
           SERIALIZATION_MACRO args \<Rightarrow> MAKE_T_ARG_LIST (GET_ARG_COUNT args) REFLECTION args
         | SERIALIZATION_MACRO_EMPTY \<Rightarrow> Some [reflection_no_member]
         | SERIALIZATION_MACRO_DERIVED ParentClass args \<Rightarrow>
             (case properties ds ParentClass of
                None \<Rightarrow> None
              | Some parent_properties \<Rightarrow>
                  (case MAKE_T_ARG_LIST (GET_ARG_COUNT args) REFLECTION args of
                     None \<Rightarrow> None
                   | Some own \<Rightarrow> Some (parent_properties @ own)))
         | no_macro \<Rightarrow> None)
      else properties ds T)"

fun lookup_class :: "class_decl list \<Rightarrow> string \<Rightarrow> class_decl option" where
  "lookup_class [] T = None"
| "lookup_class (d # ds) T = (if cname d = T then Some d else lookup_class ds T)"

text \<open>The test classes of the repository's test files, with an integral member in place
  of the \<^verbatim>\<open>double\<close>.\<close>

definition test_serialization :: class_decl where
  "test_serialization =
     \<lparr>cname = ''test::test_serialization'', polymorphic = True,
      macro = SERIALIZATION_MACRO [(''d_'', TInt)],
      default_members = [(''d_'', VInt 0)],
      initialize = (\<lambda>members. members)\<rparr>"

definition test_derived_serialization :: class_decl where
  "test_derived_serialization =
     \<lparr>cname = ''test::test_derived_serialization'', polymorphic = True,
      macro = SERIALIZATION_MACRO_DERIVED ''test::test_serialization'' [(''n_'', TString)],
      default_members = [(''d_'', VInt 0), (''n_'', VString '''')],
      initialize = (\<lambda>members. members)\<rparr>"

definition test_classes :: "class_decl list" where
  "test_classes = [test_derived_serialization, test_serialization]"

section \<open>The archive adapter (archiver\_wrapper.h)\<close>

text \<open>
  \<^verbatim>\<open>archiver_wrapper<ArchiveType>\<close>: the operations the traversal engine calls, for an
  archive node of type \<open>'a\<close>. Every operation takes the node and returns it as the call
  leaves it. \<^verbatim>\<open>get\<close> returns a reference to a child: \<open>aw_get_name\<close>/\<open>aw_get_idx\<close> give
  the child as it is referenced, and \<open>aw_put_name\<close>/\<open>aw_put_idx\<close> give the parent once the
  code is done with that reference. An index is an \<^verbatim>\<open>unsigned int\<close>. The registry maps a
  type name to the type \<open>R\<close> whose \<^verbatim>\<open>register_serializer_impl<Archiver, R>\<close> was registered
  (\<^verbatim>\<open>SERIALIZATION_REGISTER_DERIVED_SERIALIZATION\<close>).
\<close>

record 'a archiver_wrapper =
  aw_push :: "val \<Rightarrow> 'a \<Rightarrow> failure + 'a"
  aw_pop :: "ty \<Rightarrow> 'a \<Rightarrow> failure + (val \<times> 'a)"
  aw_push_class_name :: "string \<Rightarrow> 'a \<Rightarrow> failure + 'a"
  aw_pop_class_name :: "'a \<Rightarrow> failure + (string \<times> 'a)"
  aw_push_index :: "string \<Rightarrow> 32 word \<Rightarrow> 'a \<Rightarrow> failure + 'a"
  aw_pop_index :: "string \<Rightarrow> 'a \<Rightarrow> failure + (32 word \<times> 'a)"
  aw_get_name :: "string \<Rightarrow> 'a \<Rightarrow> failure + 'a"
  aw_put_name :: "string \<Rightarrow> 'a \<Rightarrow> 'a \<Rightarrow> 'a"
  aw_get_idx :: "nat \<Rightarrow> 'a \<Rightarrow> failure + 'a"
  aw_put_idx :: "nat \<Rightarrow> 'a \<Rightarrow> 'a \<Rightarrow> 'a"
  aw_resize :: "nat \<Rightarrow> 'a \<Rightarrow> failure + 'a"
  aw_size :: "'a \<Rightarrow> failure + (nat \<times> 'a)"
  aw_registry :: "(string \<times> ty) list"

definition VALUE_NAME :: string where "VALUE_NAME = ''Value''"
definition INDEX_NAME :: string where "INDEX_NAME = ''Index''"
definition EMPTY_NAME :: string where "EMPTY_NAME = ''null object!''"
definition CLASS_NAME :: string where "CLASS_NAME = ''Class''"
definition SIZE_NAME :: string where "SIZE_NAME = ''Size''"

subsection \<open>JSON: \<^verbatim>\<open>archiver_wrapper<json>\<close>\<close>

text \<open>
  \<^verbatim>\<open>nlohmann::ordered_json\<close>: an object keeps its members in insertion order. Numbers are
  integers here.
\<close>

datatype json =
    JNull | JBool bool | JInt int | JString string
  | JArray "json list" | JObject "(string \<times> json) list"

text \<open>
  \<^verbatim>\<open>archive[key]\<close> on a non-const value: a null value becomes an object, an object gets
  the key with a null value if it lacks it, anything else throws \<^verbatim>\<open>type_error\<close>.
  \<open>json_key_ref\<close> is the member referred to, \<open>json_key_assign\<close> the archive once the
  member holds a value.
\<close>

fun object_assign :: "string \<Rightarrow> json \<Rightarrow> (string \<times> json) list \<Rightarrow> (string \<times> json) list" where
  "object_assign key v [] = [(key, v)]"
| "object_assign key v ((k, x) # members) =
     (if k = key then (k, v) # members else (k, x) # object_assign key v members)"

fun json_key_ref :: "string \<Rightarrow> json \<Rightarrow> failure + json" where
  "json_key_ref key JNull = Inr JNull"
| "json_key_ref key (JObject members) =
     (case map_of members key of None \<Rightarrow> Inr JNull | Some v \<Rightarrow> Inr v)"
| "json_key_ref key archive = Inl backing_error"

fun json_key_assign :: "string \<Rightarrow> json \<Rightarrow> json \<Rightarrow> json" where
  "json_key_assign key JNull v = JObject [(key, v)]"
| "json_key_assign key (JObject members) v = JObject (object_assign key v members)"
| "json_key_assign key archive v = archive"

text \<open>
  \<^verbatim>\<open>archive[idx]\<close> on a non-const value: a null value becomes an array, an array is
  filled with nulls up to \<open>idx\<close>, anything else throws \<^verbatim>\<open>type_error\<close>.
\<close>

fun json_idx_ref :: "nat \<Rightarrow> json \<Rightarrow> failure + json" where
  "json_idx_ref idx JNull = Inr JNull"
| "json_idx_ref idx (JArray elements) =
     (if idx < length elements then Inr (elements ! idx) else Inr JNull)"
| "json_idx_ref idx archive = Inl backing_error"

fun json_idx_assign :: "nat \<Rightarrow> json \<Rightarrow> json \<Rightarrow> json" where
  "json_idx_assign idx JNull v = JArray (replicate idx JNull @ [v])"
| "json_idx_assign idx (JArray elements) v =
     JArray ((elements @ replicate (Suc idx - length elements) JNull)[idx := v])"
| "json_idx_assign idx archive v = archive"

text \<open>\<^verbatim>\<open>push\<close>: \<^verbatim>\<open>archive = obj\<close>; a null \<^verbatim>\<open>const char*\<close> and a monostate are stored
  as \<^verbatim>\<open>nullptr\<close>.\<close>

fun json_push :: "val \<Rightarrow> json \<Rightarrow> failure + json" where
  "json_push (VCString None) archive = Inr JNull"
| "json_push (VCString (Some obj)) archive = Inr (JString obj)"
| "json_push VMonostate archive = Inr JNull"
| "json_push (VInt i) archive = Inr (JInt i)"
| "json_push (VBool b) archive = Inr (JBool b)"
| "json_push (VString s) archive = Inr (JString s)"
| "json_push obj archive = Inl ill_typed"

text \<open>\<^verbatim>\<open>pop\<close>: \<^verbatim>\<open>archive.get<T>()\<close>, which throws \<^verbatim>\<open>type_error\<close> at a value of another
  kind (a boolean converts to a number); \<^verbatim>\<open>const char*\<close> hits the \<^verbatim>\<open>static_assert\<close>.\<close>

fun json_pop :: "ty \<Rightarrow> json \<Rightarrow> failure + (val \<times> json)" where
  "json_pop TCString archive = Inl compile_error"
| "json_pop TMonostate archive = Inr (VMonostate, archive)"
| "json_pop TInt (JInt i) = Inr (VInt i, JInt i)"
| "json_pop TInt (JBool b) = Inr (VInt (if b then 1 else 0), JBool b)"
| "json_pop TBool (JBool b) = Inr (VBool b, JBool b)"
| "json_pop TString (JString s) = Inr (VString s, JString s)"
| "json_pop TInt archive = Inl backing_error"
| "json_pop TBool archive = Inl backing_error"
| "json_pop TString archive = Inl backing_error"
| "json_pop T archive = Inl ill_typed"

definition json_push_class_name :: "string \<Rightarrow> json \<Rightarrow> failure + json" where
  "json_push_class_name nm archive =
     (case json_key_ref CLASS_NAME archive of
        Inl e \<Rightarrow> Inl e
      | Inr member \<Rightarrow> Inr (json_key_assign CLASS_NAME archive (JString nm)))"

fun json_contains :: "json \<Rightarrow> string \<Rightarrow> bool" where
  "json_contains (JObject members) key = (map_of members key \<noteq> None)"
| "json_contains archive key = False"

definition json_pop_class_name :: "json \<Rightarrow> failure + (string \<times> json)" where
  "json_pop_class_name archive =
     (if \<not> json_contains archive CLASS_NAME then Inr ('''', archive)
      else case json_key_ref CLASS_NAME archive of
             Inl e \<Rightarrow> Inl e
           | Inr (JString nm) \<Rightarrow> Inr (nm, archive)
           | Inr member \<Rightarrow> Inr ('''', archive))"

definition json_push_index :: "string \<Rightarrow> 32 word \<Rightarrow> json \<Rightarrow> failure + json" where
  "json_push_index index_name idx archive =
     (case json_key_ref index_name archive of
        Inl e \<Rightarrow> Inl e
      | Inr member \<Rightarrow> Inr (json_key_assign index_name archive (JInt (uint idx))))"

definition json_pop_index :: "string \<Rightarrow> json \<Rightarrow> failure + (32 word \<times> json)" where
  "json_pop_index index_name archive =
     (case json_key_ref index_name archive of
        Inl e \<Rightarrow> Inl e
      | Inr (JInt i) \<Rightarrow> Inr (word_of_int i, json_key_assign index_name archive (JInt i))
      | Inr (JBool b) \<Rightarrow>
          Inr (if b then 1 else 0, json_key_assign index_name archive (JBool b))
      | Inr member \<Rightarrow> Inl backing_error)"

text \<open>\<^verbatim>\<open>archive.size()\<close>: 0 for null, the number of elements or members for an array or
  an object, 1 for anything else. \<^verbatim>\<open>resize\<close> does nothing.\<close>

fun json_size :: "json \<Rightarrow> nat" where
  "json_size JNull = 0"
| "json_size (JArray elements) = length elements"
| "json_size (JObject members) = length members"
| "json_size archive = 1"

definition json_wrapper :: "(string \<times> ty) list \<Rightarrow> json archiver_wrapper" where
  "json_wrapper JsonSerializationRegistry =
     \<lparr>aw_push = json_push,
      aw_pop = json_pop,
      aw_push_class_name = json_push_class_name,
      aw_pop_class_name = json_pop_class_name,
      aw_push_index = json_push_index,
      aw_pop_index = json_pop_index,
      aw_get_name = json_key_ref,
      aw_put_name = json_key_assign,
      aw_get_idx = json_idx_ref,
      aw_put_idx = json_idx_assign,
      aw_resize = (\<lambda>n archive. Inr archive),
      aw_size = (\<lambda>archive. Inr (json_size archive, archive)),
      aw_registry = JsonSerializationRegistry\<rparr>"

subsection \<open>Byte stream: \<^verbatim>\<open>archiver_wrapper<serialization::multi_process_stream>\<close>\<close>

text \<open>
  Modelled from the spec: \<^verbatim>\<open>multi_process_stream\<close> (util/multi\_process\_stream.h) is not
  among the sources. The spec describes a strictly positional, self-describing byte stream:
  a value is written after everything written before it (\<^verbatim>\<open><<\<close>) and read back in the
  order written (\<^verbatim>\<open>>>\<close>); strings are length-prefixed, a count is a 32-bit unsigned
  integer, an empty sum is one marker byte. The stream is the sequence of items not yet
  read; reading at an empty stream or at an item of another kind fails.
\<close>

datatype item =
    item_uchar "8 word" | item_uint "32 word" | item_int int | item_bool bool
  | item_string string

type_synonym multi_process_stream = "item list"

definition stream_insert :: "item \<Rightarrow> multi_process_stream \<Rightarrow> failure + multi_process_stream" where
  "stream_insert x archive = Inr (archive @ [x])"

fun extract_uchar :: "multi_process_stream \<Rightarrow> failure + (8 word \<times> multi_process_stream)" where
  "extract_uchar (item_uchar c # archive) = Inr (c, archive)"
| "extract_uchar archive = Inl backing_error"

fun extract_uint :: "multi_process_stream \<Rightarrow> failure + (32 word \<times> multi_process_stream)" where
  "extract_uint (item_uint n # archive) = Inr (n, archive)"
| "extract_uint archive = Inl backing_error"

fun extract_int :: "multi_process_stream \<Rightarrow> failure + (int \<times> multi_process_stream)" where
  "extract_int (item_int i # archive) = Inr (i, archive)"
| "extract_int archive = Inl backing_error"

fun extract_bool :: "multi_process_stream \<Rightarrow> failure + (bool \<times> multi_process_stream)" where
  "extract_bool (item_bool b # archive) = Inr (b, archive)"
| "extract_bool archive = Inl backing_error"

fun extract_string :: "multi_process_stream \<Rightarrow> failure + (string \<times> multi_process_stream)" where
  "extract_string (item_string s # archive) = Inr (s, archive)"
| "extract_string archive = Inl backing_error"

text \<open>The number of bytes of an item's payload: the spec's 32-bit count, single marker
  byte and length-prefixed string (a 32-bit length, then the characters).\<close>

fun payload_bytes :: "item \<Rightarrow> nat" where
  "payload_bytes (item_uchar c) = 1"
| "payload_bytes (item_uint n) = 4"
| "payload_bytes (item_int i) = 4"
| "payload_bytes (item_bool b) = 1"
| "payload_bytes (item_string s) = 4 + length s"

text \<open>
  What the stream class does with a \<^verbatim>\<open>const char*\<close> is not in the sources and not in the
  spec; it is a parameter: \<open>cstr_inserter\<close> is its \<^verbatim>\<open>operator<<(const char*)\<close> and
  \<open>cstr_extractor\<close> its \<^verbatim>\<open>operator>>(const char*&)\<close>, \<open>None\<close> where the class has no such
  operator (the call does not compile).
\<close>

record stream_class =
  cstr_inserter :: "(string option \<Rightarrow> multi_process_stream \<Rightarrow> failure + multi_process_stream) option"
  cstr_extractor :: "(multi_process_stream \<Rightarrow> failure + (string option \<times> multi_process_stream)) option"

text \<open>A stream class with neither operator.\<close>

definition no_cstr_operators :: stream_class where
  "no_cstr_operators = \<lparr>cstr_inserter = None, cstr_extractor = None\<rparr>"

text \<open>A stream class that writes a C string as a string, dereferences a null pointer
  when asked to write one, and reads no \<^verbatim>\<open>const char*\<close>.\<close>

definition cstr_as_string :: stream_class where
  "cstr_as_string =
     \<lparr>cstr_inserter =
        Some (\<lambda>obj archive. case obj of
                               None \<Rightarrow> Inl undefined_behaviour
                             | Some s \<Rightarrow> stream_insert (item_string s) archive),
      cstr_extractor = None\<rparr>"

fun binary_push :: "stream_class \<Rightarrow> val \<Rightarrow> multi_process_stream \<Rightarrow> failure + multi_process_stream" where
  "binary_push sc VMonostate archive = stream_insert (item_uchar 0) archive"
| "binary_push sc (VInt i) archive = stream_insert (item_int i) archive"
| "binary_push sc (VBool b) archive = stream_insert (item_bool b) archive"
| "binary_push sc (VString s) archive = stream_insert (item_string s) archive"
| "binary_push sc (VCString obj) archive =
     (case cstr_inserter sc of None \<Rightarrow> Inl compile_error | Some ins \<Rightarrow> ins obj archive)"
| "binary_push sc obj archive = Inl ill_typed"

fun binary_pop :: "stream_class \<Rightarrow> ty \<Rightarrow> multi_process_stream \<Rightarrow> failure + (val \<times> multi_process_stream)" where
  "binary_pop sc TMonostate archive =
     (case extract_uchar archive of
        Inl e \<Rightarrow> Inl e
      | Inr (marker, archive1) \<Rightarrow> Inr (VMonostate, archive1))"
| "binary_pop sc TInt archive =
     (case extract_int archive of Inl e \<Rightarrow> Inl e | Inr (i, archive1) \<Rightarrow> Inr (VInt i, archive1))"
| "binary_pop sc TBool archive =
     (case extract_bool archive of Inl e \<Rightarrow> Inl e | Inr (b, archive1) \<Rightarrow> Inr (VBool b, archive1))"
| "binary_pop sc TString archive =
     (case extract_string archive of
        Inl e \<Rightarrow> Inl e
      | Inr (s, archive1) \<Rightarrow> Inr (VString s, archive1))"
| "binary_pop sc TCString archive =
     (case cstr_extractor sc of
        None \<Rightarrow> Inl compile_error
      | Some ext \<Rightarrow>
         (case ext archive of Inl e \<Rightarrow> Inl e | Inr (obj, archive1) \<Rightarrow> Inr (VCString obj, archive1)))"
| "binary_pop sc T archive = Inl ill_typed"

definition binary_pop_class_name ::
  "multi_process_stream \<Rightarrow> failure + (string \<times> multi_process_stream)" where
  "binary_pop_class_name archive = extract_string archive"

definition binary_push_index ::
  "string \<Rightarrow> 32 word \<Rightarrow> multi_process_stream \<Rightarrow> failure + multi_process_stream" where
  "binary_push_index index_name idx archive = stream_insert (item_uint idx) archive"

definition binary_resize :: "nat \<Rightarrow> multi_process_stream \<Rightarrow> failure + multi_process_stream" where
  "binary_resize n archive = stream_insert (item_uint (of_nat n)) archive"

definition binary_size :: "multi_process_stream \<Rightarrow> failure + (nat \<times> multi_process_stream)" where
  "binary_size archive =
     (case extract_uint archive of Inl e \<Rightarrow> Inl e | Inr (n, archive1) \<Rightarrow> Inr (unat n, archive1))"

definition binary_wrapper ::
  "stream_class \<Rightarrow> (string \<times> ty) list \<Rightarrow> multi_process_stream archiver_wrapper" where
  "binary_wrapper sc BinarySerializationRegistry =
     \<lparr>aw_push = binary_push sc,
      aw_pop = binary_pop sc,
      aw_push_class_name = (\<lambda>nm archive. stream_insert (item_string nm) archive),
      aw_pop_class_name = binary_pop_class_name,
      aw_push_index = binary_push_index,
      aw_pop_index = (\<lambda>index_name archive. extract_uint archive),
      aw_get_name = (\<lambda>idx archive. Inr archive),
      aw_put_name = (\<lambda>idx archive child. child),
      aw_get_idx = (\<lambda>idx archive. Inr archive),
      aw_put_idx = (\<lambda>idx archive child. child),
      aw_resize = binary_resize,
      aw_size = binary_size,
      aw_registry = BinarySerializationRegistry\<rparr>"

subsection \<open>XML: \<^verbatim>\<open>archiver_wrapper<pugi::xml_node>\<close>\<close>

text \<open>
  A \<^verbatim>\<open>pugi::xml_node\<close> is a handle on a node of a document, or the null handle; every
  operation on the null handle does nothing and returns a null handle or a default. The
  document is a store of nodes, a node's identity being its position in the store. The text
  of an element is a child node of type \<^verbatim>\<open>node_pcdata\<close>.

  The characters pugixml prints for a number or a boolean and parses back are its own
  business (the spec's primitive encoding contract: lossless within the width): a payload
  is kept as the scalar that was set, and an accessor of another kind than the one that
  wrote it returns its default.
\<close>

datatype xml_value = xml_chars string | xml_number int | xml_boolean bool

fun as_string :: "xml_value option \<Rightarrow> string" where
  "as_string (Some (xml_chars s)) = s"
| "as_string v = ''''"

fun as_llong :: "xml_value option \<Rightarrow> int" where
  "as_llong (Some (xml_number i)) = i"
| "as_llong v = 0"

fun as_uint :: "xml_value option \<Rightarrow> 32 word" where
  "as_uint (Some (xml_number i)) = word_of_int i"
| "as_uint v = 0"

fun as_bool :: "xml_value option \<Rightarrow> bool" where
  "as_bool (Some (xml_boolean b)) = b"
| "as_bool v = False"

datatype xml_node_type = node_element | node_pcdata

record xml_node_struct =
  node_type :: xml_node_type
  node_name :: string
  node_value :: "xml_value option"
  attributes :: "(string \<times> xml_value) list"
  children :: "nat list"
  parent :: "nat option"

text \<open>
  The state an XML archive lives in: the nodes of the document and
  \<^verbatim>\<open>thread_local static inline xml_node_wrapper cached_node\<close>, the one handle every
  \<^verbatim>\<open>get\<close> of the wrapper returns a reference to.
\<close>

record xml_state =
  nodes :: "xml_node_struct list"
  cached_node :: "nat option"

text \<open>
  The \<^verbatim>\<open>pugi::xml_node&\<close> a call receives refers either to a handle variable of the caller
  or to \<^verbatim>\<open>cached_node.node\<close>; in the second case the node it denotes changes whenever
  \<^verbatim>\<open>get\<close> assigns \<^verbatim>\<open>cached_node.node\<close>.
\<close>

datatype xml_ref = node_variable "nat option" | cached_node_ref

type_synonym xml_archive = "xml_ref \<times> xml_state"

fun resolve :: "xml_ref \<Rightarrow> xml_state \<Rightarrow> nat option" where
  "resolve (node_variable h) s = h"
| "resolve cached_node_ref s = cached_node s"

definition node_at :: "xml_node_struct list \<Rightarrow> nat option \<Rightarrow> xml_node_struct option" where
  "node_at ns h =
     (case h of None \<Rightarrow> None | Some n \<Rightarrow> if n < length ns then Some (ns ! n) else None)"

definition first_child :: "xml_node_struct list \<Rightarrow> nat option \<Rightarrow> nat option" where
  "first_child ns h =
     (case node_at ns h of
        None \<Rightarrow> None
      | Some nd \<Rightarrow> (case children nd of [] \<Rightarrow> None | c # cs \<Rightarrow> Some c))"

fun element_after :: "nat \<Rightarrow> nat list \<Rightarrow> nat option" where
  "element_after n [] = None"
| "element_after n [c] = None"
| "element_after n (c # c' # cs) = (if c = n then Some c' else element_after n (c' # cs))"

definition next_sibling :: "xml_node_struct list \<Rightarrow> nat option \<Rightarrow> nat option" where
  "next_sibling ns h =
     (case node_at ns h of
        None \<Rightarrow> None
      | Some nd \<Rightarrow>
         (case node_at ns (parent nd) of
            None \<Rightarrow> None
          | Some p \<Rightarrow> element_after (the h) (children p)))"

definition child :: "xml_node_struct list \<Rightarrow> nat option \<Rightarrow> string \<Rightarrow> nat option" where
  "child ns h nm =
     (case node_at ns h of
        None \<Rightarrow> None
      | Some nd \<Rightarrow>
          find (\<lambda>c. case node_at ns (Some c) of
                      None \<Rightarrow> False
                    | Some cd \<Rightarrow> node_type cd = node_element \<and> node_name cd = nm)
               (children nd))"

text \<open>\<^verbatim>\<open>append_child\<close>: a new last child of an element; the null handle at the null handle
  or at a text node.\<close>

definition append_node ::
  "xml_node_struct list \<Rightarrow> nat option \<Rightarrow> xml_node_struct \<Rightarrow> nat option \<times> xml_node_struct list" where
  "append_node ns h new =
     (case node_at ns h of
        None \<Rightarrow> (None, ns)
      | Some nd \<Rightarrow>
          (if node_type nd = node_element then
             (Some (length ns),
              ns[the h := nd\<lparr>children := children nd @ [length ns]\<rparr>] @ [new\<lparr>parent := h\<rparr>])
           else (None, ns)))"

definition append_child ::
  "xml_node_struct list \<Rightarrow> nat option \<Rightarrow> string \<Rightarrow> nat option \<times> xml_node_struct list" where
  "append_child ns h nm =
     append_node ns h
       \<lparr>node_type = node_element, node_name = nm, node_value = None, attributes = [],
        children = [], parent = None\<rparr>"

definition attribute :: "xml_node_struct list \<Rightarrow> nat option \<Rightarrow> string \<Rightarrow> xml_value option" where
  "attribute ns h nm =
     (case node_at ns h of None \<Rightarrow> None | Some nd \<Rightarrow> map_of (attributes nd) nm)"

text \<open>\<^verbatim>\<open>append_attribute(name).set_value(v)\<close>: a new last attribute of an element, even
  when one of that name exists.\<close>

definition append_attribute ::
  "xml_node_struct list \<Rightarrow> nat option \<Rightarrow> string \<Rightarrow> xml_value \<Rightarrow> xml_node_struct list" where
  "append_attribute ns h nm v =
     (case node_at ns h of
        None \<Rightarrow> ns
      | Some nd \<Rightarrow>
          (if node_type nd = node_element
           then ns[the h := nd\<lparr>attributes := attributes nd @ [(nm, v)]\<rparr>]
           else ns))"

text \<open>\<^verbatim>\<open>text()\<close>: the node itself when it is a text node, else its first text child.\<close>

definition text_data :: "xml_node_struct list \<Rightarrow> nat option \<Rightarrow> nat option" where
  "text_data ns h =
     (case node_at ns h of
        None \<Rightarrow> None
      | Some nd \<Rightarrow>
          (if node_type nd = node_pcdata then h
           else find (\<lambda>c. case node_at ns (Some c) of
                             None \<Rightarrow> False
                           | Some cd \<Rightarrow> node_type cd = node_pcdata)
                     (children nd)))"

definition text_get :: "xml_node_struct list \<Rightarrow> nat option \<Rightarrow> xml_value option" where
  "text_get ns h =
     (case node_at ns (text_data ns h) of None \<Rightarrow> None | Some d \<Rightarrow> node_value d)"

text \<open>\<^verbatim>\<open>text().set(v)\<close>: sets the text node, appending one first when there is none.\<close>

definition text_set ::
  "xml_node_struct list \<Rightarrow> nat option \<Rightarrow> xml_value \<Rightarrow> xml_node_struct list" where
  "text_set ns h v =
     (case text_data ns h of
        Some d \<Rightarrow> ns[d := (ns ! d)\<lparr>node_value := Some v\<rparr>]
      | None \<Rightarrow>
          snd (append_node ns h
                 \<lparr>node_type = node_pcdata, node_name = [], node_value = Some v,
                  attributes = [], children = [], parent = None\<rparr>))"

text \<open>\<^verbatim>\<open>obj.c_str()\<close> handed to a \<^verbatim>\<open>const char*\<close> parameter: the characters before the
  first NUL.\<close>

definition c_str :: "string \<Rightarrow> string" where
  "c_str s = takeWhile (\<lambda>c. c \<noteq> CHR 0x00) s"

fun xml_push :: "val \<Rightarrow> xml_archive \<Rightarrow> failure + xml_archive" where
  "xml_push (VCString None) (r, s) = Inr (r, s)"
| "xml_push (VCString (Some obj)) (r, s) =
     Inr (r, s\<lparr>nodes := text_set (nodes s) (resolve r s) (xml_chars obj)\<rparr>)"
| "xml_push VMonostate (r, s) = Inr (r, s)"
| "xml_push (VString obj) (r, s) =
     Inr (r, s\<lparr>nodes := text_set (nodes s) (resolve r s) (xml_chars (c_str obj))\<rparr>)"
| "xml_push (VBool obj) (r, s) =
     Inr (r, s\<lparr>nodes := text_set (nodes s) (resolve r s) (xml_boolean obj)\<rparr>)"
| "xml_push (VInt obj) (r, s) =
     Inr (r, s\<lparr>nodes := text_set (nodes s) (resolve r s) (xml_number obj)\<rparr>)"
| "xml_push obj (r, s) = Inl ill_typed"

fun xml_pop :: "ty \<Rightarrow> xml_archive \<Rightarrow> failure + (val \<times> xml_archive)" where
  "xml_pop TCString (r, s) = Inl compile_error"
| "xml_pop TMonostate (r, s) = Inr (VMonostate, (r, s))"
| "xml_pop TString (r, s) = Inr (VString (as_string (text_get (nodes s) (resolve r s))), (r, s))"
| "xml_pop TBool (r, s) = Inr (VBool (as_bool (text_get (nodes s) (resolve r s))), (r, s))"
| "xml_pop TInt (r, s) = Inr (VInt (as_llong (text_get (nodes s) (resolve r s))), (r, s))"
| "xml_pop T (r, s) = Inl ill_typed"

definition xml_push_class_name :: "string \<Rightarrow> xml_archive \<Rightarrow> failure + xml_archive" where
  "xml_push_class_name nm archive =
     (case archive of (r, s) \<Rightarrow>
        Inr (r, s\<lparr>nodes :=
               append_attribute (nodes s) (resolve r s) ''class'' (xml_chars (c_str nm))\<rparr>))"

definition xml_pop_class_name :: "xml_archive \<Rightarrow> failure + (string \<times> xml_archive)" where
  "xml_pop_class_name archive =
     (case archive of (r, s) \<Rightarrow>
        (case attribute (nodes s) (resolve r s) ''class'' of
           Some attr \<Rightarrow> Inr (as_string (Some attr), archive)
         | None \<Rightarrow> Inr ('''', archive)))"

definition xml_push_index :: "string \<Rightarrow> 32 word \<Rightarrow> xml_archive \<Rightarrow> failure + xml_archive" where
  "xml_push_index index_name idx archive =
     (case archive of (r, s) \<Rightarrow>
        Inr (r, s\<lparr>nodes :=
               append_attribute (nodes s) (resolve r s) index_name (xml_number (uint idx))\<rparr>))"

definition xml_pop_index :: "string \<Rightarrow> xml_archive \<Rightarrow> failure + (32 word \<times> xml_archive)" where
  "xml_pop_index index_name archive =
     (case archive of (r, s) \<Rightarrow>
        Inr (as_uint (attribute (nodes s) (resolve r s) index_name), archive))"

text \<open>
  \<^verbatim>\<open>get(pugi::xml_node& archive, std::string_view idx)\<close>:
  \<^verbatim>\<open>cached_node.node = archive.child(idx); if (!cached_node.node) cached_node.node =
  archive.append_child(idx); return cached_node.node;\<close>. The second use of \<^verbatim>\<open>archive\<close> comes
  after the assignment.
\<close>

definition xml_get_name :: "string \<Rightarrow> xml_archive \<Rightarrow> failure + xml_archive" where
  "xml_get_name idx archive =
     (case archive of (r, s) \<Rightarrow>
        (let s1 = s\<lparr>cached_node := child (nodes s) (resolve r s) idx\<rparr> in
         if cached_node s1 = None then
           (case append_child (nodes s1) (resolve r s1) idx of
              (c, ns) \<Rightarrow> Inr (cached_node_ref, s1\<lparr>nodes := ns, cached_node := c\<rparr>))
         else Inr (cached_node_ref, s1)))"

text \<open>
  \<^verbatim>\<open>get(pugi::xml_node& archive, size_t idx)\<close>: starting at the first child, \<open>idx\<close> times
  either append an \<^verbatim>\<open>item\<close> (when the handle is null) or step to the next sibling; append
  an \<^verbatim>\<open>item\<close> if the handle is null at the end; assign it to \<^verbatim>\<open>cached_node.node\<close>.
\<close>

fun xml_get_idx_loop ::
  "nat \<Rightarrow> nat option \<Rightarrow> nat option \<Rightarrow> xml_node_struct list \<Rightarrow> nat option \<times> xml_node_struct list" where
  "xml_get_idx_loop 0 archive chld ns = (chld, ns)"
| "xml_get_idx_loop (Suc k) archive chld ns =
     (if chld = None then
        (case append_child ns archive ''item'' of
           (c, ns') \<Rightarrow> xml_get_idx_loop k archive c ns')
      else xml_get_idx_loop k archive (next_sibling ns chld) ns)"

definition xml_get_idx :: "nat \<Rightarrow> xml_archive \<Rightarrow> failure + xml_archive" where
  "xml_get_idx idx archive =
     (case archive of (r, s) \<Rightarrow>
        (case xml_get_idx_loop idx (resolve r s) (first_child (nodes s) (resolve r s)) (nodes s) of
           (chld, ns) \<Rightarrow>
             (if chld = None then
                (case append_child ns (resolve r s) ''item'' of
                   (c, ns') \<Rightarrow> Inr (cached_node_ref, s\<lparr>nodes := ns', cached_node := c\<rparr>))
              else Inr (cached_node_ref, s\<lparr>nodes := ns, cached_node := chld\<rparr>))))"

text \<open>Once the code is done with the reference \<^verbatim>\<open>get\<close> returned, the caller's own
  reference is what it was and the state is what the callee left.\<close>

definition xml_put :: "xml_archive \<Rightarrow> xml_archive \<Rightarrow> xml_archive" where
  "xml_put archive chld = (fst archive, snd chld)"

definition xml_resize :: "nat \<Rightarrow> xml_archive \<Rightarrow> failure + xml_archive" where
  "xml_resize sz archive =
     (case archive of (r, s) \<Rightarrow>
        Inr (r, s\<lparr>nodes :=
               append_attribute (nodes s) (resolve r s) SIZE_NAME
                 (xml_number (uint (of_nat sz :: 32 word)))\<rparr>))"

definition xml_size :: "xml_archive \<Rightarrow> failure + (nat \<times> xml_archive)" where
  "xml_size archive =
     (case archive of (r, s) \<Rightarrow>
        (case attribute (nodes s) (resolve r s) SIZE_NAME of
           Some size_attr \<Rightarrow> Inr (unat (as_uint (Some size_attr)), archive)
         | None \<Rightarrow>
            (case node_at (nodes s) (resolve r s) of
               None \<Rightarrow> Inr (0, archive)
             | Some nd \<Rightarrow> Inr (length (children nd), archive))))"

definition xml_wrapper :: "(string \<times> ty) list \<Rightarrow> xml_archive archiver_wrapper" where
  "xml_wrapper XmlSerializationRegistry =
     \<lparr>aw_push = xml_push,
      aw_pop = xml_pop,
      aw_push_class_name = xml_push_class_name,
      aw_pop_class_name = xml_pop_class_name,
      aw_push_index = xml_push_index,
      aw_pop_index = xml_pop_index,
      aw_get_name = xml_get_name,
      aw_put_name = (\<lambda>idx. xml_put),
      aw_get_idx = xml_get_idx,
      aw_put_idx = (\<lambda>idx. xml_put),
      aw_resize = xml_resize,
      aw_size = xml_size,
      aw_registry = XmlSerializationRegistry\<rparr>"

text \<open>A document with one element and no text, attribute or child, and a handle variable
  on that element: \<^verbatim>\<open>buffer = doc.append_child("test")\<close> of the tests.\<close>

definition xml_buffer :: xml_archive where
  "xml_buffer =
     (node_variable (Some 0),
      \<lparr>nodes = [\<lparr>node_type = node_element, node_name = ''test'', node_value = None,
                 attributes = [], children = [], parent = None\<rparr>],
       cached_node = None\<rparr>)"

section \<open>The traversal engine (serialization\_impl.h)\<close>

text \<open>\<^verbatim>\<open>Reflectable<T>\<close>: \<^verbatim>\<open>access::serializer::tuple<T>()\<close>, that is \<^verbatim>\<open>T::properties()\<close>,
  exists.\<close>

fun Reflectable :: "class_decl list \<Rightarrow> ty \<Rightarrow> bool" where
  "Reflectable ct (TClass c) = (properties ct c \<noteq> None)"
| "Reflectable ct T = False"

text \<open>\<^verbatim>\<open>demangle(typeid(T).name())\<close>. For a class it is the class name; the names of the
  other types are the platform's, and only serve as registry keys.\<close>

fun type_name :: "ty \<Rightarrow> string" where
  "type_name (TClass c) = c"
| "type_name TInt = ''int''"
| "type_name TBool = ''bool''"
| "type_name TString = ''std::string''"
| "type_name TCString = ''char const*''"
| "type_name TMonostate = ''std::monostate''"
| "type_name (TVector E) = ''std::vector<'' @ type_name E @ ''>''"
| "type_name (TSet k E) = ''std::set<'' @ type_name E @ ''>''"
| "type_name (TMap k K V) = ''std::map<'' @ type_name K @ '', '' @ type_name V @ ''>''"
| "type_name (TArray Size E) = ''std::array<'' @ type_name E @ ''>''"
| "type_name (TPair First Second) =
     ''std::pair<'' @ type_name First @ '', '' @ type_name Second @ ''>''"
| "type_name (TTuple Ts) = ''std::tuple<'' @ concat (map type_name Ts) @ ''>''"
| "type_name (TOptional E) = ''std::optional<'' @ type_name E @ ''>''"
| "type_name (TVariant Ts) = ''std::variant<'' @ concat (map type_name Ts) @ ''>''"
| "type_name (TUnique E) = ''std::unique_ptr<'' @ type_name E @ ''>''"
| "type_name (TShared E) = ''std::shared_ptr<'' @ type_name E @ ''>''"

fun is_polymorphic :: "class_decl list \<Rightarrow> ty \<Rightarrow> bool" where
  "is_polymorphic ct (TClass c) =
     (case lookup_class ct c of Some d \<Rightarrow> polymorphic d | None \<Rightarrow> False)"
| "is_polymorphic ct T = False"

text \<open>\<^verbatim>\<open>detail::polymorphic_type_name(obj)\<close>: the name of the dynamic type of \<^verbatim>\<open>*obj\<close> when
  \<open>T\<close> is polymorphic, of \<open>T\<close> otherwise.\<close>

fun polymorphic_type_name :: "class_decl list \<Rightarrow> ty \<Rightarrow> val \<Rightarrow> string" where
  "polymorphic_type_name ct T (VObject dyn members) =
     (if is_polymorphic ct T then dyn else type_name T)"
| "polymorphic_type_name ct T obj = type_name T"

subsection \<open>\<^verbatim>\<open>serialization::save\<close>\<close>

text \<open>
  \<open>save ct aw T obj archive\<close> is \<^verbatim>\<open>serialization::save<Archiver, T>(archive, obj)\<close>: the
  archive as the call leaves it, or the failure that ends the call. The equations follow the
  value; inside each, the static type selects the specialisation of \<^verbatim>\<open>serializer_impl\<close>,
  as the compiler does.
  \<^item> \<open>save_container\<close> is the loop of \<^verbatim>\<open>save_container\<close>, of the set branch of
    \<^verbatim>\<open>save_associative_container\<close> and of the \<^verbatim>\<open>std::array\<close> specialisation (element
    \<open>i\<close> at \<^verbatim>\<open>get(archive, i)\<close>);
  \<^item> \<open>save_map\<close> is the loop of the map branch of \<^verbatim>\<open>save_associative_container\<close>
    (key at \<^verbatim>\<open>get(archive, i++)\<close>, then value at \<^verbatim>\<open>get(archive, i++)\<close>);
  \<^item> \<open>save_tuple_impl\<close> is the fold of \<^verbatim>\<open>save_tuple_impl\<close>;
  \<^item> \<open>save_properties\<close> is the \<^verbatim>\<open>for_sequence\<close> loop of \<^verbatim>\<open>save_object\<close> over the
    descriptor, \<open>save_member\<close> the access \<^verbatim>\<open>obj->*(property.member())\<close> followed by the
    save of the member.
  The \<^verbatim>\<open>std::variant\<close> specialisation narrows the index to \<^verbatim>\<open>unsigned char\<close> and hands it
  to \<^verbatim>\<open>push_index\<close>, whose parameter is an \<^verbatim>\<open>unsigned int\<close>. A valueless variant passes
  the check and reaches \<^verbatim>\<open>std::visit\<close>, which throws; a null unique pointer passes the check
  and is dereferenced.
\<close>

function (sequential)
    save :: "class_decl list \<Rightarrow> 'a archiver_wrapper \<Rightarrow> ty \<Rightarrow> val \<Rightarrow> 'a \<Rightarrow> failure + 'a"
and save_container ::
      "class_decl list \<Rightarrow> 'a archiver_wrapper \<Rightarrow> ty \<Rightarrow> val list \<Rightarrow> nat \<Rightarrow> 'a \<Rightarrow> failure + 'a"
and save_map ::
      "class_decl list \<Rightarrow> 'a archiver_wrapper \<Rightarrow> ty \<Rightarrow> ty \<Rightarrow> (val \<times> val) list \<Rightarrow> nat \<Rightarrow> 'a
         \<Rightarrow> failure + 'a"
and save_tuple_impl ::
      "class_decl list \<Rightarrow> 'a archiver_wrapper \<Rightarrow> ty list \<Rightarrow> val list \<Rightarrow> nat \<Rightarrow> 'a
         \<Rightarrow> failure + 'a"
and save_properties ::
      "class_decl list \<Rightarrow> 'a archiver_wrapper \<Rightarrow> property list \<Rightarrow> (string \<times> val) list \<Rightarrow> 'a
         \<Rightarrow> failure + 'a"
and save_member ::
      "class_decl list \<Rightarrow> 'a archiver_wrapper \<Rightarrow> ty \<Rightarrow> string \<Rightarrow> (string \<times> val) list \<Rightarrow> 'a
         \<Rightarrow> failure + 'a"
where
  "save ct aw T (VInt i) archive =
     (case T of TInt \<Rightarrow> aw_push aw (VInt i) archive | _ \<Rightarrow> Inl ill_typed)"
| "save ct aw T (VBool b) archive =
     (case T of TBool \<Rightarrow> aw_push aw (VBool b) archive | _ \<Rightarrow> Inl ill_typed)"
| "save ct aw T (VString s) archive =
     (case T of TString \<Rightarrow> aw_push aw (VString s) archive | _ \<Rightarrow> Inl ill_typed)"
| "save ct aw T (VCString p) archive =
     (case T of TCString \<Rightarrow> aw_push aw (VCString p) archive | _ \<Rightarrow> Inl ill_typed)"
| "save ct aw T VMonostate archive =
     (case T of TMonostate \<Rightarrow> aw_push aw VMonostate archive | _ \<Rightarrow> Inl ill_typed)"
| "save ct aw T (VSeq items) archive =
     (case T of
        TVector E \<Rightarrow>
          (case aw_resize aw (length items) archive of
             Inl e \<Rightarrow> Inl e
           | Inr archive1 \<Rightarrow> save_container ct aw E items 0 archive1)
      | TSet k E \<Rightarrow>
          (case aw_resize aw (length items) archive of
             Inl e \<Rightarrow> Inl e
           | Inr archive1 \<Rightarrow> save_container ct aw E items 0 archive1)
      | TArray Size E \<Rightarrow>
          (if length items \<noteq> Size then Inl ill_typed
           else case aw_resize aw Size archive of
             Inl e \<Rightarrow> Inl e
           | Inr archive1 \<Rightarrow> save_container ct aw E items 0 archive1)
      | _ \<Rightarrow> Inl ill_typed)"
| "save ct aw T (VMap pairs) archive =
     (case T of
        TMap k K V \<Rightarrow>
          (case aw_resize aw (2 * length pairs) archive of
             Inl e \<Rightarrow> Inl e
           | Inr archive1 \<Rightarrow> save_map ct aw K V pairs 0 archive1)
      | _ \<Rightarrow> Inl ill_typed)"
| "save ct aw T (VPair first second) archive =
     (case T of
        TPair First Second \<Rightarrow>
          (case aw_get_idx aw 0 archive of
             Inl e \<Rightarrow> Inl e
           | Inr c0 \<Rightarrow>
              (case save ct aw First first c0 of
                 Inl e \<Rightarrow> Inl e
               | Inr c0' \<Rightarrow>
                  (case aw_get_idx aw 1 (aw_put_idx aw 0 archive c0') of
                     Inl e \<Rightarrow> Inl e
                   | Inr c1 \<Rightarrow>
                      (case save ct aw Second second c1 of
                         Inl e \<Rightarrow> Inl e
                       | Inr c1' \<Rightarrow>
                           Inr (aw_put_idx aw 1 (aw_put_idx aw 0 archive c0') c1')))))
      | _ \<Rightarrow> Inl ill_typed)"
| "save ct aw T (VTuple items) archive =
     (case T of
        TTuple Ts \<Rightarrow>
          (case aw_resize aw (length Ts) archive of
             Inl e \<Rightarrow> Inl e
           | Inr archive1 \<Rightarrow> save_tuple_impl ct aw Ts items 0 archive1)
      | _ \<Rightarrow> Inl ill_typed)"
| "save ct aw T (VOptional None) archive =
     (case T of
        TOptional E \<Rightarrow>
          (case aw_resize aw 2 archive of
             Inl e \<Rightarrow> Inl e
           | Inr archive1 \<Rightarrow>
              (case aw_get_idx aw 0 archive1 of
                 Inl e \<Rightarrow> Inl e
               | Inr c0 \<Rightarrow>
                  (case aw_push aw (VBool False) c0 of
                     Inl e \<Rightarrow> Inl e
                   | Inr c0' \<Rightarrow> Inr (aw_put_idx aw 0 archive1 c0'))))
      | _ \<Rightarrow> Inl ill_typed)"
| "save ct aw T (VOptional (Some x)) archive =
     (case T of
        TOptional E \<Rightarrow>
          (case aw_resize aw 2 archive of
             Inl e \<Rightarrow> Inl e
           | Inr archive1 \<Rightarrow>
              (case aw_get_idx aw 0 archive1 of
                 Inl e \<Rightarrow> Inl e
               | Inr c0 \<Rightarrow>
                  (case aw_push aw (VBool True) c0 of
                     Inl e \<Rightarrow> Inl e
                   | Inr c0' \<Rightarrow>
                      (case aw_get_idx aw 1 (aw_put_idx aw 0 archive1 c0') of
                         Inl e \<Rightarrow> Inl e
                       | Inr c1 \<Rightarrow>
                          (case save ct aw E x c1 of
                             Inl e \<Rightarrow> Inl e
                           | Inr c1' \<Rightarrow>
                               Inr (aw_put_idx aw 1 (aw_put_idx aw 0 archive1 c0') c1'))))))
      | _ \<Rightarrow> Inl ill_typed)"
| "save ct aw T (VVariant variant_index x) archive =
     (case T of
        TVariant Ts \<Rightarrow>
          (if 255 < length Ts then Inl compile_error
           else if length Ts \<le> variant_index then Inl ill_typed
           else case SERIALIZATION_CHECK True invalid_variant of
             Inl e \<Rightarrow> Inl e
           | Inr u \<Rightarrow>
              (case aw_push_index aw INDEX_NAME
                      (ucast (of_nat variant_index :: 8 word)) archive of
                 Inl e \<Rightarrow> Inl e
               | Inr archive1 \<Rightarrow>
                  (case aw_get_name aw VALUE_NAME archive1 of
                     Inl e \<Rightarrow> Inl e
                   | Inr c \<Rightarrow>
                      (case save ct aw (Ts ! variant_index) x c of
                         Inl e \<Rightarrow> Inl e
                       | Inr c' \<Rightarrow> Inr (aw_put_name aw VALUE_NAME archive1 c')))))
      | _ \<Rightarrow> Inl ill_typed)"
| "save ct aw T VValueless archive =
     (case T of
        TVariant Ts \<Rightarrow>
          (if 255 < length Ts then Inl compile_error
           else case SERIALIZATION_CHECK False invalid_variant of
             Inl e \<Rightarrow> Inl e
           | Inr u \<Rightarrow> Inl backing_error)
      | _ \<Rightarrow> Inl ill_typed)"
| "save ct aw T (VPtr None) archive =
     (case T of
        TUnique E \<Rightarrow>
          (case SERIALIZATION_CHECK False null_pointer of
             Inl e \<Rightarrow> Inl e
           | Inr u \<Rightarrow> Inl undefined_behaviour)
      | TShared E \<Rightarrow> aw_push_class_name aw EMPTY_NAME archive
      | _ \<Rightarrow> Inl ill_typed)"
| "save ct aw T (VPtr (Some x)) archive =
     (case T of
        TUnique E \<Rightarrow>
          (case SERIALIZATION_CHECK True null_pointer of
             Inl e \<Rightarrow> Inl e
           | Inr u \<Rightarrow> save ct aw E x archive)
      | TShared E \<Rightarrow>
          (if Reflectable ct E then
             (case aw_push_class_name aw (polymorphic_type_name ct E x) archive of
                Inl e \<Rightarrow> Inl e
              | Inr archive1 \<Rightarrow> save ct aw E x archive1)
           else
             (case aw_push_class_name aw (polymorphic_type_name ct E x) archive of
                Inl e \<Rightarrow> Inl e
              | Inr archive1 \<Rightarrow>
                 (case map_of (aw_registry aw) (polymorphic_type_name ct E x) of
                    None \<Rightarrow> Inr archive1
                  | Some R \<Rightarrow> save ct aw R x archive1)))
      | _ \<Rightarrow> Inl ill_typed)"
| "save ct aw T (VObject dyn members) archive =
     (case T of
        TClass c \<Rightarrow>
          (case properties ct c of
             None \<Rightarrow> Inl compile_error
           | Some props \<Rightarrow>
              (case aw_push_class_name aw
                      (polymorphic_type_name ct (TClass c) (VObject dyn members)) archive of
                 Inl e \<Rightarrow> Inl e
               | Inr archive1 \<Rightarrow> save_properties ct aw props members archive1))
      | _ \<Rightarrow> Inl ill_typed)"
| "save_container ct aw T [] i archive = Inr archive"
| "save_container ct aw T (item # items) i archive =
     (case aw_get_idx aw i archive of
        Inl e \<Rightarrow> Inl e
      | Inr c \<Rightarrow>
         (case save ct aw T item c of
            Inl e \<Rightarrow> Inl e
          | Inr c' \<Rightarrow> save_container ct aw T items (Suc i) (aw_put_idx aw i archive c')))"
| "save_map ct aw K V [] i archive = Inr archive"
| "save_map ct aw K V ((key, value) # pairs) i archive =
     (case aw_get_idx aw i archive of
        Inl e \<Rightarrow> Inl e
      | Inr c \<Rightarrow>
         (case save ct aw K key c of
            Inl e \<Rightarrow> Inl e
          | Inr c' \<Rightarrow>
             (case aw_get_idx aw (Suc i) (aw_put_idx aw i archive c') of
                Inl e \<Rightarrow> Inl e
              | Inr d \<Rightarrow>
                 (case save ct aw V value d of
                    Inl e \<Rightarrow> Inl e
                  | Inr d' \<Rightarrow>
                     save_map ct aw K V pairs (Suc (Suc i))
                       (aw_put_idx aw (Suc i) (aw_put_idx aw i archive c') d')))))"
| "save_tuple_impl ct aw [] [] i archive = Inr archive"
| "save_tuple_impl ct aw (T # Ts) (item # items) i archive =
     (case aw_get_idx aw i archive of
        Inl e \<Rightarrow> Inl e
      | Inr c \<Rightarrow>
         (case save ct aw T item c of
            Inl e \<Rightarrow> Inl e
          | Inr c' \<Rightarrow> save_tuple_impl ct aw Ts items (Suc i) (aw_put_idx aw i archive c')))"
| "save_tuple_impl ct aw [] (item # items) i archive = Inl ill_typed"
| "save_tuple_impl ct aw (T # Ts) [] i archive = Inl ill_typed"
| "save_properties ct aw [] members archive = Inr archive"
| "save_properties ct aw (reflection_empty n # props) members archive =
     (case aw_get_name aw n archive of
        Inl e \<Rightarrow> Inl e
      | Inr archive_tmp \<Rightarrow>
          save_properties ct aw props members (aw_put_name aw n archive archive_tmp))"
| "save_properties ct aw (reflection_impl n member_type # props) members archive =
     (case aw_get_name aw n archive of
        Inl e \<Rightarrow> Inl e
      | Inr archive_tmp \<Rightarrow>
         (case save_member ct aw member_type n members archive_tmp of
            Inl e \<Rightarrow> Inl e
          | Inr archive_tmp' \<Rightarrow>
              save_properties ct aw props members (aw_put_name aw n archive archive_tmp')))"
| "save_member ct aw member_type n [] archive = Inl ill_typed"
| "save_member ct aw member_type n ((m, member_ref) # members) archive =
     (if m = n then save ct aw member_type member_ref archive
      else save_member ct aw member_type n members archive)"
  by pat_completeness auto
termination
  apply (relation "measures
     [(\<lambda>x. case x of
          Inl (Inl (ct, aw, T, obj, archive)) \<Rightarrow> size obj
        | Inl (Inr (Inl (ct, aw, T, items, i, archive))) \<Rightarrow> size_list size items
        | Inl (Inr (Inr (ct, aw, K, V, pairs, i, archive))) \<Rightarrow>
            size_list (size_prod size size) pairs
        | Inr (Inl (ct, aw, Ts, items, i, archive)) \<Rightarrow> size_list size items
        | Inr (Inr (Inl (ct, aw, props, members, archive))) \<Rightarrow>
            size_list (size_prod (\<lambda>x. 0) size) members
        | Inr (Inr (Inr (ct, aw, T, n, members, archive))) \<Rightarrow>
            size_list (size_prod (\<lambda>x. 0) size) members),
      (\<lambda>x. case x of
          Inr (Inr (Inl (ct, aw, props, members, archive))) \<Rightarrow> Suc (length props)
        | _ \<Rightarrow> 0)]")
  apply auto
  done

subsection \<open>\<^verbatim>\<open>serialization::load\<close>\<close>

text \<open>What \<^verbatim>\<open>T{}\<close>, \<^verbatim>\<open>new T()\<close> and \<^verbatim>\<open>container.emplace_back()\<close> construct.\<close>

fun default_val :: "class_decl list \<Rightarrow> ty \<Rightarrow> val" where
  "default_val ct TInt = VInt 0"
| "default_val ct TBool = VBool False"
| "default_val ct TString = VString ''''"
| "default_val ct TCString = VCString None"
| "default_val ct TMonostate = VMonostate"
| "default_val ct (TVector E) = VSeq []"
| "default_val ct (TSet k E) = VSeq []"
| "default_val ct (TMap k K V) = VMap []"
| "default_val ct (TArray Size E) = VSeq (replicate Size (default_val ct E))"
| "default_val ct (TPair First Second) = VPair (default_val ct First) (default_val ct Second)"
| "default_val ct (TTuple Ts) = VTuple (map (default_val ct) Ts)"
| "default_val ct (TOptional E) = VOptional None"
| "default_val ct (TVariant []) = VValueless"
| "default_val ct (TVariant (T # Ts)) = VVariant 0 (default_val ct T)"
| "default_val ct (TUnique E) = VPtr None"
| "default_val ct (TShared E) = VPtr None"
| "default_val ct (TClass c) =
     (case lookup_class ct c of
        None \<Rightarrow> VObject c []
      | Some d \<Rightarrow> VObject c (default_members d))"

text \<open>
  The order of the keys of an ordered container (\<^verbatim>\<open>std::less\<close>), for integral, boolean
  and string keys; strings compare byte by byte.
\<close>

fun val_less :: "val \<Rightarrow> val \<Rightarrow> bool" where
  "val_less (VInt a) (VInt b) = (a < b)"
| "val_less (VBool a) (VBool b) = (\<not> a \<and> b)"
| "val_less (VString a) (VString b) = (a < b)"
| "val_less a b = False"

text \<open>
  \<^verbatim>\<open>container.emplace(value)\<close> and \<^verbatim>\<open>container.emplace(key, value)\<close>. A \<^verbatim>\<open>std::set\<close> or
  \<^verbatim>\<open>std::map\<close> keeps its elements in key order and drops an element whose key it already
  holds; an unordered container drops it too, and is listed here in insertion order (its
  iteration order is its own business).
\<close>

fun set_emplace_ordered :: "val \<Rightarrow> val list \<Rightarrow> val list" where
  "set_emplace_ordered x [] = [x]"
| "set_emplace_ordered x (y # ys) =
     (if val_less x y then x # y # ys
      else if val_less y x then y # set_emplace_ordered x ys
      else y # ys)"

fun map_emplace_ordered :: "val \<times> val \<Rightarrow> (val \<times> val) list \<Rightarrow> (val \<times> val) list" where
  "map_emplace_ordered (k, v) [] = [(k, v)]"
| "map_emplace_ordered (k, v) ((k', v') # m) =
     (if val_less k k' then (k, v) # (k', v') # m
      else if val_less k' k then (k', v') # map_emplace_ordered (k, v) m
      else (k', v') # m)"

fun set_emplace :: "ckind \<Rightarrow> val \<Rightarrow> val list \<Rightarrow> val list" where
  "set_emplace ordered_unique x container = set_emplace_ordered x container"
| "set_emplace unordered_unique x container =
     (if x \<in> set container then container else container @ [x])"

fun map_emplace :: "ckind \<Rightarrow> val \<times> val \<Rightarrow> (val \<times> val) list \<Rightarrow> (val \<times> val) list" where
  "map_emplace ordered_unique kv container = map_emplace_ordered kv container"
| "map_emplace unordered_unique kv container =
     (if fst kv \<in> fst ` set container then container else container @ [kv])"

text \<open>A loader is \<^verbatim>\<open>serialization::load<Archiver, E>\<close> at some element type \<open>E\<close>: from the
  object to load into and the archive to the loaded object and the archive.\<close>

type_synonym 'a loader = "val \<Rightarrow> 'a \<Rightarrow> failure + (val \<times> 'a)"

text \<open>\<^verbatim>\<open>load_container\<close>: elements \<open>0 .. size - 1\<close>, each loaded into a default-constructed
  element appended to the cleared container.\<close>

fun load_container_loop ::
  "'a archiver_wrapper \<Rightarrow> 'a loader \<Rightarrow> val \<Rightarrow> nat list \<Rightarrow> val list \<Rightarrow> 'a
     \<Rightarrow> failure + (val list \<times> 'a)" where
  "load_container_loop aw ld element [] container archive = Inr (container, archive)"
| "load_container_loop aw ld element (i # is) container archive =
     (case aw_get_idx aw i archive of
        Inl e \<Rightarrow> Inl e
      | Inr c \<Rightarrow>
         (case ld element c of
            Inl e \<Rightarrow> Inl e
          | Inr (x, c') \<Rightarrow>
              load_container_loop aw ld element is (container @ [x])
                (aw_put_idx aw i archive c')))"

definition load_container :: "'a archiver_wrapper \<Rightarrow> 'a loader \<Rightarrow> val \<Rightarrow> 'a loader" where
  "load_container aw ld element container archive =
     (case aw_size aw archive of
        Inl e \<Rightarrow> Inl e
      | Inr (sz, archive1) \<Rightarrow>
         (case load_container_loop aw ld element [0..<sz] [] archive1 of
            Inl e \<Rightarrow> Inl e
          | Inr (container', archive2) \<Rightarrow> Inr (VSeq container', archive2)))"

text \<open>\<^verbatim>\<open>load_associative_container\<close>, the set branch and the map branch; the check of the
  parity of the size is the \<^verbatim>\<open>SERIALIZATION_CHECK\<close> of the source.\<close>

fun load_set_loop ::
  "'a archiver_wrapper \<Rightarrow> ckind \<Rightarrow> 'a loader \<Rightarrow> val \<Rightarrow> nat list \<Rightarrow> val list \<Rightarrow> 'a
     \<Rightarrow> failure + (val list \<times> 'a)" where
  "load_set_loop aw k ld element [] container archive = Inr (container, archive)"
| "load_set_loop aw k ld element (i # is) container archive =
     (case aw_get_idx aw i archive of
        Inl e \<Rightarrow> Inl e
      | Inr c \<Rightarrow>
         (case ld element c of
            Inl e \<Rightarrow> Inl e
          | Inr (x, c') \<Rightarrow>
              load_set_loop aw k ld element is (set_emplace k x container)
                (aw_put_idx aw i archive c')))"

fun load_map_loop ::
  "'a archiver_wrapper \<Rightarrow> ckind \<Rightarrow> 'a loader \<Rightarrow> 'a loader \<Rightarrow> val \<Rightarrow> val \<Rightarrow> nat list
     \<Rightarrow> (val \<times> val) list \<Rightarrow> 'a \<Rightarrow> failure + ((val \<times> val) list \<times> 'a)" where
  "load_map_loop aw k ldK ldV key value [] container archive = Inr (container, archive)"
| "load_map_loop aw k ldK ldV key value (i # is) container archive =
     (case aw_get_idx aw (2 * i) archive of
        Inl e \<Rightarrow> Inl e
      | Inr c \<Rightarrow>
         (case ldK key c of
            Inl e \<Rightarrow> Inl e
          | Inr (key', c') \<Rightarrow>
             (case aw_get_idx aw (2 * i + 1) (aw_put_idx aw (2 * i) archive c') of
                Inl e \<Rightarrow> Inl e
              | Inr d \<Rightarrow>
                 (case ldV value d of
                    Inl e \<Rightarrow> Inl e
                  | Inr (value', d') \<Rightarrow>
                      load_map_loop aw k ldK ldV key value is
                        (map_emplace k (key', value') container)
                        (aw_put_idx aw (2 * i + 1) (aw_put_idx aw (2 * i) archive c') d')))))"

definition load_associative_container_set ::
  "'a archiver_wrapper \<Rightarrow> ckind \<Rightarrow> 'a loader \<Rightarrow> val \<Rightarrow> 'a loader" where
  "load_associative_container_set aw k ld element container archive =
     (case aw_size aw archive of
        Inl e \<Rightarrow> Inl e
      | Inr (sz, archive1) \<Rightarrow>
         (case load_set_loop aw k ld element [0..<sz] [] archive1 of
            Inl e \<Rightarrow> Inl e
          | Inr (container', archive2) \<Rightarrow> Inr (VSeq container', archive2)))"

definition load_associative_container_map ::
  "'a archiver_wrapper \<Rightarrow> ckind \<Rightarrow> 'a loader \<Rightarrow> 'a loader \<Rightarrow> val \<Rightarrow> val \<Rightarrow> 'a loader" where
  "load_associative_container_map aw k ldK ldV key value container archive =
     (case aw_size aw archive of
        Inl e \<Rightarrow> Inl e
      | Inr (sz, archive1) \<Rightarrow>
         (case SERIALIZATION_CHECK (sz mod 2 = 0) size_mismatch of
            Inl e \<Rightarrow> Inl e
          | Inr u \<Rightarrow>
             (case load_map_loop aw k ldK ldV key value [0..<sz div 2] [] archive1 of
                Inl e \<Rightarrow> Inl e
              | Inr (container', archive2) \<Rightarrow> Inr (VMap container', archive2))))"

text \<open>The \<^verbatim>\<open>std::array\<close> specialisation: element \<open>i\<close> is loaded into \<^verbatim>\<open>array[i]\<close>.\<close>

fun load_array_loop ::
  "'a archiver_wrapper \<Rightarrow> 'a loader \<Rightarrow> nat list \<Rightarrow> val list \<Rightarrow> 'a
     \<Rightarrow> failure + (val list \<times> 'a)" where
  "load_array_loop aw ld [] array archive = Inr (array, archive)"
| "load_array_loop aw ld (i # is) array archive =
     (case aw_get_idx aw i archive of
        Inl e \<Rightarrow> Inl e
      | Inr c \<Rightarrow>
         (case ld (array ! i) c of
            Inl e \<Rightarrow> Inl e
          | Inr (x, c') \<Rightarrow>
              load_array_loop aw ld is (array[i := x]) (aw_put_idx aw i archive c')))"

definition load_array :: "'a archiver_wrapper \<Rightarrow> 'a loader \<Rightarrow> nat \<Rightarrow> 'a loader" where
  "load_array aw ld Size array archive =
     (case array of
        VSeq elements \<Rightarrow>
          (if length elements \<noteq> Size then Inl ill_typed
           else case aw_size aw archive of
             Inl e \<Rightarrow> Inl e
           | Inr (archive_size, archive1) \<Rightarrow>
              (case SERIALIZATION_CHECK (archive_size = Size) size_mismatch of
                 Inl e \<Rightarrow> Inl e
               | Inr u \<Rightarrow>
                  (case load_array_loop aw ld [0..<Size] elements archive1 of
                     Inl e \<Rightarrow> Inl e
                   | Inr (elements', archive2) \<Rightarrow> Inr (VSeq elements', archive2))))
      | _ \<Rightarrow> Inl ill_typed)"

text \<open>The \<^verbatim>\<open>std::pair\<close> specialisation.\<close>

definition load_pair :: "'a archiver_wrapper \<Rightarrow> 'a loader \<Rightarrow> 'a loader \<Rightarrow> 'a loader" where
  "load_pair aw ldFirst ldSecond pair archive =
     (case pair of
        VPair first second \<Rightarrow>
          (case aw_get_idx aw 0 archive of
             Inl e \<Rightarrow> Inl e
           | Inr c0 \<Rightarrow>
              (case ldFirst first c0 of
                 Inl e \<Rightarrow> Inl e
               | Inr (first', c0') \<Rightarrow>
                  (case aw_get_idx aw 1 (aw_put_idx aw 0 archive c0') of
                     Inl e \<Rightarrow> Inl e
                   | Inr c1 \<Rightarrow>
                      (case ldSecond second c1 of
                         Inl e \<Rightarrow> Inl e
                       | Inr (second', c1') \<Rightarrow>
                           Inr (VPair first' second',
                                aw_put_idx aw 1 (aw_put_idx aw 0 archive c0') c1')))))
      | _ \<Rightarrow> Inl ill_typed)"

text \<open>The \<^verbatim>\<open>TupleLike\<close> specialisation: \<^verbatim>\<open>load_tuple_impl\<close> loads element \<open>I\<close> into
  \<^verbatim>\<open>std::get<I>(tuple)\<close> with the loader of its type.\<close>

fun load_tuple_impl ::
  "'a archiver_wrapper \<Rightarrow> 'a loader list \<Rightarrow> val list \<Rightarrow> nat \<Rightarrow> 'a
     \<Rightarrow> failure + (val list \<times> 'a)" where
  "load_tuple_impl aw [] [] i archive = Inr ([], archive)"
| "load_tuple_impl aw (ld # lds) (item # items) i archive =
     (case aw_get_idx aw i archive of
        Inl e \<Rightarrow> Inl e
      | Inr c \<Rightarrow>
         (case ld item c of
            Inl e \<Rightarrow> Inl e
          | Inr (x, c') \<Rightarrow>
             (case load_tuple_impl aw lds items (Suc i) (aw_put_idx aw i archive c') of
                Inl e \<Rightarrow> Inl e
              | Inr (xs, archive') \<Rightarrow> Inr (x # xs, archive'))))"
| "load_tuple_impl aw [] (item # items) i archive = Inl ill_typed"
| "load_tuple_impl aw (ld # lds) [] i archive = Inl ill_typed"

definition load_tuple :: "'a archiver_wrapper \<Rightarrow> 'a loader list \<Rightarrow> 'a loader" where
  "load_tuple aw lds tuple archive =
     (case tuple of
        VTuple items \<Rightarrow>
          (case aw_size aw archive of
             Inl e \<Rightarrow> Inl e
           | Inr (archive_size, archive1) \<Rightarrow>
              (case SERIALIZATION_CHECK (archive_size = length lds) size_mismatch of
                 Inl e \<Rightarrow> Inl e
               | Inr u \<Rightarrow>
                  (case load_tuple_impl aw lds items 0 archive1 of
                     Inl e \<Rightarrow> Inl e
                   | Inr (items', archive2) \<Rightarrow> Inr (VTuple items', archive2))))
      | _ \<Rightarrow> Inl ill_typed)"

text \<open>The \<^verbatim>\<open>OptionalLike\<close> specialisation; \<open>ldBool\<close> loads the \<^verbatim>\<open>has_value\<close> flag.\<close>

definition load_optional ::
  "'a archiver_wrapper \<Rightarrow> 'a loader \<Rightarrow> 'a loader \<Rightarrow> val \<Rightarrow> 'a loader" where
  "load_optional aw ldBool ld loaded_value optional archive =
     (case aw_size aw archive of
        Inl e \<Rightarrow> Inl e
      | Inr (archive_size, archive1) \<Rightarrow>
         (case SERIALIZATION_CHECK (1 \<le> archive_size) size_mismatch of
            Inl e \<Rightarrow> Inl e
          | Inr u \<Rightarrow>
             (case aw_get_idx aw 0 archive1 of
                Inl e \<Rightarrow> Inl e
              | Inr c0 \<Rightarrow>
                 (case ldBool (VBool False) c0 of
                    Inl e \<Rightarrow> Inl e
                  | Inr (VBool has_value, c0') \<Rightarrow>
                      (if has_value then
                         (case SERIALIZATION_CHECK (2 \<le> archive_size) size_mismatch of
                            Inl e \<Rightarrow> Inl e
                          | Inr u \<Rightarrow>
                             (case aw_get_idx aw 1 (aw_put_idx aw 0 archive1 c0') of
                                Inl e \<Rightarrow> Inl e
                              | Inr c1 \<Rightarrow>
                                 (case ld loaded_value c1 of
                                    Inl e \<Rightarrow> Inl e
                                  | Inr (x, c1') \<Rightarrow>
                                      Inr (VOptional (Some x),
                                           aw_put_idx aw 1 (aw_put_idx aw 0 archive1 c0') c1'))))
                       else Inr (VOptional None, aw_put_idx aw 0 archive1 c0'))
                  | Inr (other, c0') \<Rightarrow> Inl ill_typed))))"

text \<open>
  The \<^verbatim>\<open>std::variant\<close> specialisation. \<open>loaders\<close> is the table \<^verbatim>\<open>loaders[]\<close>, one loader
  per alternative, \<open>defaults\<close> the values \<^verbatim>\<open>Types{}\<close>. \<^verbatim>\<open>loaders[index]\<close> is a plain
  array subscript: past the end it is undefined behaviour.
\<close>

definition load_variant ::
  "'a archiver_wrapper \<Rightarrow> 'a loader list \<Rightarrow> val list \<Rightarrow> 'a loader" where
  "load_variant aw loaders defaults variant archive =
     (let num_types = length loaders in
      if 255 < num_types then Inl compile_error
      else case aw_pop_index aw INDEX_NAME archive of
        Inl e \<Rightarrow> Inl e
      | Inr (index, archive1) \<Rightarrow>
         (case SERIALIZATION_CHECK (unat index < num_types) invalid_index of
            Inl e \<Rightarrow> Inl e
          | Inr u \<Rightarrow>
             (if num_types \<le> unat index then Inl undefined_behaviour
              else case aw_get_name aw VALUE_NAME archive1 of
                Inl e \<Rightarrow> Inl e
              | Inr c \<Rightarrow>
                 (case (loaders ! unat index)
                         (case variant of
                            VVariant held x \<Rightarrow>
                              if held = unat index then x else defaults ! unat index
                          | _ \<Rightarrow> defaults ! unat index) c of
                    Inl e \<Rightarrow> Inl e
                  | Inr (x, c') \<Rightarrow>
                      Inr (VVariant (unat index) x, aw_put_name aw VALUE_NAME archive1 c')))))"

text \<open>The \<^verbatim>\<open>UniquePointer\<close> specialisation: \<^verbatim>\<open>make_ptr\<close>, load into it, \<^verbatim>\<open>reset\<close>.\<close>

definition load_unique :: "'a loader \<Rightarrow> val \<Rightarrow> 'a loader" where
  "load_unique ld loaded_object object archive =
     (case ld loaded_object archive of
        Inl e \<Rightarrow> Inl e
      | Inr (x, archive1) \<Rightarrow> Inr (VPtr (Some x), archive1))"

text \<open>
  The \<^verbatim>\<open>SharedPointer\<close> specialisation. \<open>run\<close> is \<^verbatim>\<open>registry()->run(class_name, archive,
  &object, true)\<close> for a registered type \<open>R\<close>, that is \<^verbatim>\<open>register_serializer_impl<Archiver,
  R>\<close> in its loading branch: \<open>run R\<close> is the loader of \<open>R\<close> applied to a new \<open>R\<close>.
\<close>

definition load_shared ::
  "'a archiver_wrapper \<Rightarrow> bool \<Rightarrow> (ty \<Rightarrow> 'a \<Rightarrow> failure + (val \<times> 'a)) \<Rightarrow> 'a loader \<Rightarrow> val
     \<Rightarrow> 'a loader" where
  "load_shared aw reflectable run ld loaded_object object archive =
     (case aw_pop_class_name aw archive of
        Inl e \<Rightarrow> Inl e
      | Inr (class_name, archive1) \<Rightarrow>
         (if class_name = EMPTY_NAME then Inr (VPtr None, archive1)
          else case map_of (aw_registry aw) class_name of
            Some R \<Rightarrow>
              (case run R archive1 of
                 Inl e \<Rightarrow> Inl e
               | Inr (x, archive2) \<Rightarrow> Inr (VPtr (Some x), archive2))
          | None \<Rightarrow>
              (if reflectable then
                 (case aw_push_class_name aw class_name archive1 of
                    Inl e \<Rightarrow> Inl e
                  | Inr archive2 \<Rightarrow>
                     (case ld loaded_object archive2 of
                        Inl e \<Rightarrow> Inl e
                      | Inr (x, archive3) \<Rightarrow> Inr (VPtr (Some x), archive3)))
               else
                 (case SERIALIZATION_THROW registry_not_found of
                    Inl e \<Rightarrow> Inl e
                  | Inr u \<Rightarrow> Inr (object, archive1)))))"

text \<open>
  \<^verbatim>\<open>load_object\<close>. \<open>load_properties\<close> is the \<^verbatim>\<open>for_sequence\<close> loop over the descriptor:
  each member is loaded into \<^verbatim>\<open>obj.*(property.member())\<close> from \<^verbatim>\<open>get(archive, name)\<close>.
  After the loop, \<^verbatim>\<open>access::serializer::initialize(obj)\<close> calls \<^verbatim>\<open>obj.initialize()\<close>.
\<close>

fun object_update :: "string \<Rightarrow> val \<Rightarrow> (string \<times> val) list \<Rightarrow> (string \<times> val) list" where
  "object_update n x [] = []"
| "object_update n x ((m, v) # members) =
     (if m = n then (m, x) # members else (m, v) # object_update n x members)"

fun load_properties ::
  "'a archiver_wrapper \<Rightarrow> (ty \<Rightarrow> 'a loader) \<Rightarrow> property list \<Rightarrow> (string \<times> val) list \<Rightarrow> 'a
     \<Rightarrow> failure + ((string \<times> val) list \<times> 'a)" where
  "load_properties aw ld [] members archive = Inr (members, archive)"
| "load_properties aw ld (reflection_empty n # props) members archive =
     (case aw_get_name aw n archive of
        Inl e \<Rightarrow> Inl e
      | Inr archive_tmp \<Rightarrow>
          load_properties aw ld props members (aw_put_name aw n archive archive_tmp))"
| "load_properties aw ld (reflection_impl n member_type # props) members archive =
     (case aw_get_name aw n archive of
        Inl e \<Rightarrow> Inl e
      | Inr archive_tmp \<Rightarrow>
         (case map_of members n of
            None \<Rightarrow> Inl ill_typed
          | Some member_ref \<Rightarrow>
             (case ld member_type member_ref archive_tmp of
                Inl e \<Rightarrow> Inl e
              | Inr (x, archive_tmp') \<Rightarrow>
                  load_properties aw ld props (object_update n x members)
                    (aw_put_name aw n archive archive_tmp'))))"

definition load_object ::
  "class_decl list \<Rightarrow> 'a archiver_wrapper \<Rightarrow> (ty \<Rightarrow> 'a loader) \<Rightarrow> string \<Rightarrow> 'a loader" where
  "load_object ct aw ld T obj archive =
     (case (properties ct T, lookup_class ct T, obj) of
        (Some props, Some d, VObject dyn members) \<Rightarrow>
          (if 0 < length props then
             (case aw_pop_class_name aw archive of
                Inl e \<Rightarrow> Inl e
              | Inr (class_name, archive1) \<Rightarrow>
                 (case SERIALIZATION_CHECK (class_name \<noteq> []) missing_field of
                    Inl e \<Rightarrow> Inl e
                  | Inr u \<Rightarrow>
                     (if class_name \<noteq> EMPTY_NAME then
                        (case load_properties aw ld props members archive1 of
                           Inl e \<Rightarrow> Inl e
                         | Inr (members', archive2) \<Rightarrow>
                             Inr (VObject dyn (initialize d members'), archive2))
                      else Inr (obj, archive1))))
           else Inr (obj, archive))
      | (None, d, obj) \<Rightarrow> Inl compile_error
      | _ \<Rightarrow> Inl ill_typed)"

text \<open>
  \<open>load ct aw fuel T obj archive\<close> is \<^verbatim>\<open>serialization::load<Archiver, T>(archive, obj)\<close>:
  the object and the archive as the call leaves them. The recursion of \<^verbatim>\<open>load\<close> follows
  the static type and what the archive holds, and need not end (a class that holds a pointer
  to itself, loaded from an archive that lacks the data); \<open>fuel\<close> bounds the depth of the
  nested calls, and a call that needs more ends in \<open>out_of_fuel\<close>.
\<close>

fun load ::
  "class_decl list \<Rightarrow> 'a archiver_wrapper \<Rightarrow> nat \<Rightarrow> ty \<Rightarrow> val \<Rightarrow> 'a \<Rightarrow> failure + (val \<times> 'a)" where
  "load ct aw 0 T obj archive = Inl out_of_fuel"
| "load ct aw (Suc fuel) T obj archive =
     (case T of
        TInt \<Rightarrow> aw_pop aw TInt archive
      | TBool \<Rightarrow> aw_pop aw TBool archive
      | TString \<Rightarrow> aw_pop aw TString archive
      | TCString \<Rightarrow> aw_pop aw TCString archive
      | TMonostate \<Rightarrow> aw_pop aw TMonostate archive
      | TClass c \<Rightarrow> load_object ct aw (load ct aw fuel) c obj archive
      | TVector E \<Rightarrow> load_container aw (load ct aw fuel E) (default_val ct E) obj archive
      | TSet k E \<Rightarrow>
          load_associative_container_set aw k (load ct aw fuel E) (default_val ct E) obj archive
      | TMap k K V \<Rightarrow>
          load_associative_container_map aw k (load ct aw fuel K) (load ct aw fuel V)
            (default_val ct K) (default_val ct V) obj archive
      | TArray Size E \<Rightarrow> load_array aw (load ct aw fuel E) Size obj archive
      | TVariant Ts \<Rightarrow>
          load_variant aw (map (load ct aw fuel) Ts) (map (default_val ct) Ts) obj archive
      | TPair First Second \<Rightarrow>
          load_pair aw (load ct aw fuel First) (load ct aw fuel Second) obj archive
      | TUnique E \<Rightarrow> load_unique (load ct aw fuel E) (default_val ct E) obj archive
      | TShared E \<Rightarrow>
          load_shared aw (Reflectable ct E)
            (\<lambda>R. load ct aw fuel R (default_val ct R))
            (load ct aw fuel E) (default_val ct E) obj archive
      | TTuple Ts \<Rightarrow> load_tuple aw (map (load ct aw fuel) Ts) obj archive
      | TOptional E \<Rightarrow>
          load_optional aw (load ct aw fuel TBool) (load ct aw fuel E) (default_val ct E)
            obj archive)"

subsection \<open>The serialization context\<close>

text \<open>
  \<^verbatim>\<open>detail::serialization_context\<close>: a depth counter and its bound. \<open>enter\<close> is the
  constructor of \<^verbatim>\<open>depth_guard\<close> (\<^verbatim>\<open>++ctx.depth; if (ctx.depth > ctx.max_depth) throw;\<close>,
  a \<^verbatim>\<open>throw;\<close> with no exception being handled, which calls \<^verbatim>\<open>std::terminate\<close>), \<open>leave\<close>
  its destructor. No function of the library constructs a context or calls \<^verbatim>\<open>enter()\<close>:
  \<open>save\<close> and \<open>load\<close> above take no context.
\<close>

record serialization_context =
  depth :: nat

definition max_depth :: nat where
  "max_depth = 1000"

definition enter :: "serialization_context \<Rightarrow> failure + serialization_context" where
  "enter ctx =
     (let ctx' = ctx\<lparr>depth := depth ctx + 1\<rparr>
      in if max_depth < depth ctx' then Inl terminate else Inr ctx')"

definition leave :: "serialization_context \<Rightarrow> serialization_context" where
  "leave ctx = ctx\<lparr>depth := depth ctx - 1\<rparr>"

subsection \<open>A class that points to itself\<close>

text \<open>
  \<^verbatim>\<open>struct node { std::shared_ptr<node> next; void initialize() {}
  SERIALIZATION_MACRO(node, next) };\<close> and the list of \<open>n\<close> nodes behind a shared handle,
  with the JSON value its save produces.
\<close>

definition node :: class_decl where
  "node =
     \<lparr>cname = ''node'', polymorphic = False,
      macro = SERIALIZATION_MACRO [(''next'', TShared (TClass ''node''))],
      default_members = [(''next'', VPtr None)],
      initialize = (\<lambda>members. members)\<rparr>"

fun chain :: "nat \<Rightarrow> val" where
  "chain 0 = VPtr None"
| "chain (Suc n) = VPtr (Some (VObject ''node'' [(''next'', chain n)]))"

fun chain_json :: "nat \<Rightarrow> json" where
  "chain_json 0 = JObject [(''Class'', JString ''null object!'')]"
| "chain_json (Suc n) = JObject [(''Class'', JString ''node''), (''next'', chain_json n)]"

text \<open>A class whose \<^verbatim>\<open>initialize()\<close> counts its calls:
  \<^verbatim>\<open>struct counted { int value; int calls; void initialize() { ++calls; }
  SERIALIZATION_MACRO(counted, value, calls) };\<close>\<close>

fun increment :: "val \<Rightarrow> val" where
  "increment (VInt i) = VInt (i + 1)"
| "increment v = v"

definition counted :: class_decl where
  "counted =
     \<lparr>cname = ''counted'', polymorphic = False,
      macro = SERIALIZATION_MACRO [(''value'', TInt), (''calls'', TInt)],
      default_members = [(''value'', VInt 0), (''calls'', VInt 0)],
      initialize = (\<lambda>members. map (\<lambda>(n, v). if n = ''calls'' then (n, increment v) else (n, v))
                                  members)\<rparr>"

text \<open>The class table with the \<^verbatim>\<open>initialize()\<close> of every class replaced.\<close>

definition with_initialize ::
  "(class_decl \<Rightarrow> (string \<times> val) list \<Rightarrow> (string \<times> val) list) \<Rightarrow> class_decl list
     \<Rightarrow> class_decl list" where
  "with_initialize h ct = map (\<lambda>d. d\<lparr>initialize := h d\<rparr>) ct"

section \<open>The values that round-trip\<close>

datatype format = json_format | binary_format

text \<open>The member entries of a descriptor, without the placeholders.\<close>

fun member_props :: "property list \<Rightarrow> (string \<times> ty) list" where
  "member_props [] = []"
| "member_props (reflection_impl n t # props) = (n, t) # member_props props"
| "member_props (reflection_empty n # props) = member_props props"

text \<open>
  \<open>admissible fmt ct reg T x target\<close>: the value \<open>x\<close> of static type \<open>T\<close> can be saved in
  format \<open>fmt\<close> and loaded back into the object \<open>target\<close>, with the classes \<open>ct\<close> and the
  registry \<open>reg\<close>. It says, all the way down:
  \<^item> \<open>x\<close> inhabits \<open>T\<close>; an array, a tuple and a variant of at most 255 alternatives have
    the size and the tag their type allows;
  \<^item> there is no \<^verbatim>\<open>const char*\<close>, no valueless variant and no null unique pointer;
  \<^item> a set or map lists its elements as the container iterates them: in strictly
    increasing key order when ordered, without repeated key when unordered;
  \<^item> a shared pointer that is not null points to an object of a reflectable class, and
    the registry, if it knows the name of that class, maps it to that class;
  \<^item> an object has the dynamic class of its static type, whose name is not the empty
    sentinel; its members are exactly the members of the descriptor, under distinct
    names; \<^verbatim>\<open>initialize()\<close> leaves the object as it is;
  \<^item> in JSON, no member is named \<^verbatim>\<open>Class\<close>; in the byte stream, a count fits an
    \<^verbatim>\<open>unsigned int\<close>;
  \<^item> \<open>target\<close> has the shape of \<open>T\<close> where \<open>load\<close> loads into parts of it (array, pair,
    tuple, object; the alternative a variant holds); where \<open>load\<close> constructs the object it
    loads into, that object is \<open>default_val\<close>.
\<close>

function (sequential)
    admissible ::
      "format \<Rightarrow> class_decl list \<Rightarrow> (string \<times> ty) list \<Rightarrow> ty \<Rightarrow> val \<Rightarrow> val \<Rightarrow> bool"
and admissible_items ::
      "format \<Rightarrow> class_decl list \<Rightarrow> (string \<times> ty) list \<Rightarrow> ty \<Rightarrow> val list \<Rightarrow> bool"
and admissible_array ::
      "format \<Rightarrow> class_decl list \<Rightarrow> (string \<times> ty) list \<Rightarrow> ty \<Rightarrow> val list \<Rightarrow> val list \<Rightarrow> bool"
and admissible_pairs ::
      "format \<Rightarrow> class_decl list \<Rightarrow> (string \<times> ty) list \<Rightarrow> ty \<Rightarrow> ty \<Rightarrow> (val \<times> val) list
         \<Rightarrow> bool"
and admissible_tuple ::
      "format \<Rightarrow> class_decl list \<Rightarrow> (string \<times> ty) list \<Rightarrow> ty list \<Rightarrow> val list \<Rightarrow> val list
         \<Rightarrow> bool"
and admissible_members ::
      "format \<Rightarrow> class_decl list \<Rightarrow> (string \<times> ty) list \<Rightarrow> (string \<times> ty) list
         \<Rightarrow> (string \<times> val) list \<Rightarrow> (string \<times> val) list \<Rightarrow> bool"
where
  "admissible fmt ct reg T (VInt i) target = (T = TInt)"
| "admissible fmt ct reg T (VBool b) target = (T = TBool)"
| "admissible fmt ct reg T (VString s) target = (T = TString)"
| "admissible fmt ct reg T (VCString p) target = False"
| "admissible fmt ct reg T VMonostate target = (T = TMonostate)"
| "admissible fmt ct reg T (VSeq items) target =
     (case T of
        TVector E \<Rightarrow>
          (fmt = binary_format \<longrightarrow> length items < 2 ^ 32)
          \<and> admissible_items fmt ct reg E items
      | TSet k E \<Rightarrow>
          (fmt = binary_format \<longrightarrow> length items < 2 ^ 32)
          \<and> (case k of
                ordered_unique \<Rightarrow> sorted_wrt val_less items
              | unordered_unique \<Rightarrow> distinct items)
          \<and> admissible_items fmt ct reg E items
      | TArray Size E \<Rightarrow>
          (case target of
             VSeq elements \<Rightarrow> length items = Size \<and> admissible_array fmt ct reg E items elements
           | _ \<Rightarrow> False)
      | _ \<Rightarrow> False)"
| "admissible fmt ct reg T (VMap pairs) target =
     (case T of
        TMap k K V \<Rightarrow>
          (fmt = binary_format \<longrightarrow> 2 * length pairs < 2 ^ 32)
          \<and> (case k of
                ordered_unique \<Rightarrow> sorted_wrt val_less (map fst pairs)
              | unordered_unique \<Rightarrow> distinct (map fst pairs))
          \<and> admissible_pairs fmt ct reg K V pairs
      | _ \<Rightarrow> False)"
| "admissible fmt ct reg T (VPair first second) target =
     (case T of
        TPair First Second \<Rightarrow>
          (case target of
             VPair target_first target_second \<Rightarrow>
               admissible fmt ct reg First first target_first
               \<and> admissible fmt ct reg Second second target_second
           | _ \<Rightarrow> False)
      | _ \<Rightarrow> False)"
| "admissible fmt ct reg T (VTuple items) target =
     (case T of
        TTuple Ts \<Rightarrow>
          (case target of
             VTuple targets \<Rightarrow> admissible_tuple fmt ct reg Ts items targets
           | _ \<Rightarrow> False)
      | _ \<Rightarrow> False)"
| "admissible fmt ct reg T (VOptional None) target =
     (case T of TOptional E \<Rightarrow> True | _ \<Rightarrow> False)"
| "admissible fmt ct reg T (VOptional (Some x)) target =
     (case T of TOptional E \<Rightarrow> admissible fmt ct reg E x (default_val ct E) | _ \<Rightarrow> False)"
| "admissible fmt ct reg T (VVariant variant_index x) target =
     (case T of
        TVariant Ts \<Rightarrow>
          length Ts \<le> 255 \<and> variant_index < length Ts
          \<and> admissible fmt ct reg (Ts ! variant_index) x
               (case target of
                  VVariant held y \<Rightarrow>
                    if held = variant_index then y else default_val ct (Ts ! variant_index)
                | _ \<Rightarrow> default_val ct (Ts ! variant_index))
      | _ \<Rightarrow> False)"
| "admissible fmt ct reg T VValueless target = False"
| "admissible fmt ct reg T (VPtr None) target =
     (case T of TShared E \<Rightarrow> True | _ \<Rightarrow> False)"
| "admissible fmt ct reg T (VPtr (Some x)) target =
     (case T of
        TUnique E \<Rightarrow> admissible fmt ct reg E x (default_val ct E)
      | TShared E \<Rightarrow>
          (case E of
             TClass c \<Rightarrow>
               (case map_of reg c of None \<Rightarrow> True | Some R \<Rightarrow> R = TClass c)
               \<and> admissible fmt ct reg E x (default_val ct E)
           | _ \<Rightarrow> False)
      | _ \<Rightarrow> False)"
| "admissible fmt ct reg T (VObject dyn members) target =
     (case T of
        TClass c \<Rightarrow>
          (case (properties ct c, lookup_class ct c, target) of
             (Some props, Some d, VObject target_dyn target_members) \<Rightarrow>
               dyn = c \<and> target_dyn = c \<and> c \<noteq> EMPTY_NAME
               \<and> distinct (map name props)
               \<and> (fmt = json_format \<longrightarrow> CLASS_NAME \<notin> set (map name props))
               \<and> initialize d members = members
               \<and> admissible_members fmt ct reg (member_props props) members target_members
           | _ \<Rightarrow> False)
      | _ \<Rightarrow> False)"
| "admissible_items fmt ct reg E [] = True"
| "admissible_items fmt ct reg E (x # items) =
     (admissible fmt ct reg E x (default_val ct E) \<and> admissible_items fmt ct reg E items)"
| "admissible_array fmt ct reg E [] [] = True"
| "admissible_array fmt ct reg E (x # items) (target # targets) =
     (admissible fmt ct reg E x target \<and> admissible_array fmt ct reg E items targets)"
| "admissible_array fmt ct reg E items targets = False"
| "admissible_pairs fmt ct reg K V [] = True"
| "admissible_pairs fmt ct reg K V ((key, value) # pairs) =
     (admissible fmt ct reg K key (default_val ct K)
      \<and> admissible fmt ct reg V value (default_val ct V)
      \<and> admissible_pairs fmt ct reg K V pairs)"
| "admissible_tuple fmt ct reg [] [] [] = True"
| "admissible_tuple fmt ct reg (T # Ts) (x # items) (target # targets) =
     (admissible fmt ct reg T x target \<and> admissible_tuple fmt ct reg Ts items targets)"
| "admissible_tuple fmt ct reg Ts items targets = False"
| "admissible_members fmt ct reg [] [] [] = True"
| "admissible_members fmt ct reg ((n, member_type) # props) ((m, x) # members)
       ((target_m, target) # target_members) =
     (n = m \<and> target_m = m \<and> admissible fmt ct reg member_type x target
      \<and> admissible_members fmt ct reg props members target_members)"
| "admissible_members fmt ct reg props members target_members = False"
  by pat_completeness auto
termination
  apply (relation "measure
     (\<lambda>x. case x of
          Inl (Inl (fmt, ct, reg, T, v, target)) \<Rightarrow> size v
        | Inl (Inr (Inl (fmt, ct, reg, E, items))) \<Rightarrow> size_list size items
        | Inl (Inr (Inr (fmt, ct, reg, E, items, targets))) \<Rightarrow> size_list size items
        | Inr (Inl (fmt, ct, reg, K, V, pairs)) \<Rightarrow> size_list (size_prod size size) pairs
        | Inr (Inr (Inl (fmt, ct, reg, Ts, items, targets))) \<Rightarrow> size_list size items
        | Inr (Inr (Inr (fmt, ct, reg, props, members, target_members))) \<Rightarrow>
            size_list (size_prod (\<lambda>x. 0) size) members)")
  apply auto
  done

section \<open>What a round trip is\<close>

subsection \<open>In the byte stream\<close>

text \<open>
  A value round-trips through the byte stream: \<open>save\<close> appends a run of items to whatever
  the stream holds, and \<open>load\<close>, given fuel for the depth of the value, reads exactly that
  run from the front of a stream and returns the value. What \<open>load\<close> itself appends to the
  stream (the class name \<^verbatim>\<open>push_class_name\<close> re-attaches for a shared pointer outside the
  registry) follows what was there.
\<close>

definition stream_round_trip ::
  "class_decl list \<Rightarrow> stream_class \<Rightarrow> (string \<times> ty) list \<Rightarrow> ty \<Rightarrow> val \<Rightarrow> val \<Rightarrow> bool" where
  "stream_round_trip ct sc reg T x target =
     (\<exists>items.
        (\<forall>s. save ct (binary_wrapper sc reg) T x s = Inr (s @ items))
      \<and> (\<forall>fuel rest. Suc (size x) \<le> fuel \<longrightarrow>
            (\<exists>extra. load ct (binary_wrapper sc reg) fuel T target (items @ rest)
                       = Inr (x, rest @ extra))))"

text \<open>The same for the loops. The elements of a sequence or set: the loop of \<open>save\<close>, the
  loop of \<^verbatim>\<open>load_container\<close> and the loop of the set branch of
  \<^verbatim>\<open>load_associative_container\<close>.\<close>

definition stream_items ::
  "class_decl list \<Rightarrow> stream_class \<Rightarrow> (string \<times> ty) list \<Rightarrow> ty \<Rightarrow> val list \<Rightarrow> bool" where
  "stream_items ct sc reg E elements =
     (\<exists>out.
        (\<forall>s i. save_container ct (binary_wrapper sc reg) E elements i s = Inr (s @ out))
      \<and> (\<forall>fuel rest acc idxs. size_list size elements \<le> fuel \<longrightarrow> length idxs = length elements \<longrightarrow>
            (\<exists>extra. load_container_loop (binary_wrapper sc reg)
                        (load ct (binary_wrapper sc reg) fuel E) (default_val ct E) idxs acc
                        (out @ rest)
                      = Inr (acc @ elements, rest @ extra)))
      \<and> (\<forall>k fuel rest acc idxs. size_list size elements \<le> fuel \<longrightarrow> length idxs = length elements \<longrightarrow>
            (\<exists>extra. load_set_loop (binary_wrapper sc reg) k
                        (load ct (binary_wrapper sc reg) fuel E) (default_val ct E) idxs acc
                        (out @ rest)
                      = Inr (foldl (\<lambda>c x. set_emplace k x c) acc elements, rest @ extra))))"

text \<open>The elements of a \<^verbatim>\<open>std::array\<close>, loaded in place after the elements \<open>pre\<close>.\<close>

definition stream_array ::
  "class_decl list \<Rightarrow> stream_class \<Rightarrow> (string \<times> ty) list \<Rightarrow> ty \<Rightarrow> val list \<Rightarrow> val list \<Rightarrow> bool" where
  "stream_array ct sc reg E elements targets =
     (length targets = length elements
      \<and> (\<exists>out.
           (\<forall>s i. save_container ct (binary_wrapper sc reg) E elements i s = Inr (s @ out))
         \<and> (\<forall>fuel rest pre. size_list size elements \<le> fuel \<longrightarrow>
               (\<exists>extra. load_array_loop (binary_wrapper sc reg)
                           (load ct (binary_wrapper sc reg) fuel E)
                           [length pre..<length pre + length elements] (pre @ targets)
                           (out @ rest)
                         = Inr (pre @ elements, rest @ extra)))))"

text \<open>The entries of a map.\<close>

definition stream_pairs ::
  "class_decl list \<Rightarrow> stream_class \<Rightarrow> (string \<times> ty) list \<Rightarrow> ty \<Rightarrow> ty \<Rightarrow> (val \<times> val) list \<Rightarrow> bool" where
  "stream_pairs ct sc reg K V pairs =
     (\<exists>out.
        (\<forall>s i. save_map ct (binary_wrapper sc reg) K V pairs i s = Inr (s @ out))
      \<and> (\<forall>k fuel rest acc idxs. size_list (size_prod size size) pairs \<le> fuel \<longrightarrow>
            length idxs = length pairs \<longrightarrow>
            (\<exists>extra. load_map_loop (binary_wrapper sc reg) k
                        (load ct (binary_wrapper sc reg) fuel K)
                        (load ct (binary_wrapper sc reg) fuel V)
                        (default_val ct K) (default_val ct V) idxs acc (out @ rest)
                      = Inr (foldl (\<lambda>c kv. map_emplace k kv c) acc pairs, rest @ extra))))"

text \<open>The elements of a tuple.\<close>

definition stream_tuple ::
  "class_decl list \<Rightarrow> stream_class \<Rightarrow> (string \<times> ty) list \<Rightarrow> ty list \<Rightarrow> val list \<Rightarrow> val list \<Rightarrow> bool" where
  "stream_tuple ct sc reg Ts elements targets =
     (length Ts = length elements
      \<and> (\<exists>out.
           (\<forall>s i. save_tuple_impl ct (binary_wrapper sc reg) Ts elements i s = Inr (s @ out))
         \<and> (\<forall>fuel rest i. size_list size elements \<le> fuel \<longrightarrow>
               (\<exists>extra. load_tuple_impl (binary_wrapper sc reg)
                           (map (load ct (binary_wrapper sc reg) fuel) Ts) targets i (out @ rest)
                         = Inr (elements, rest @ extra)))))"

text \<open>
  The members of an object, for every descriptor \<open>props\<close> whose member entries are \<open>mps\<close>:
  \<open>save_properties\<close> reads each member from the whole object \<open>every\<close>, and
  \<open>load_properties\<close> updates the members one by one, \<open>pre\<close> being those already loaded.
\<close>

definition stream_members ::
  "class_decl list \<Rightarrow> stream_class \<Rightarrow> (string \<times> ty) list \<Rightarrow> (string \<times> ty) list
     \<Rightarrow> (string \<times> val) list \<Rightarrow> (string \<times> val) list \<Rightarrow> bool" where
  "stream_members ct sc reg mps members target_members =
     (map fst members = map fst mps
      \<and> (\<exists>out.
           (\<forall>props every s. member_props props = mps \<longrightarrow>
               (\<forall>n x. (n, x) \<in> set members \<longrightarrow> map_of every n = Some x) \<longrightarrow>
               save_properties ct (binary_wrapper sc reg) props every s = Inr (s @ out))
         \<and> (\<forall>props pre fuel rest. member_props props = mps \<longrightarrow>
               distinct (map fst pre @ map fst mps) \<longrightarrow>
               size_list (size_prod (\<lambda>x. 0) size) members \<le> fuel \<longrightarrow>
               (\<exists>extra. load_properties (binary_wrapper sc reg)
                           (load ct (binary_wrapper sc reg) fuel) props (pre @ target_members)
                           (out @ rest)
                         = Inr (pre @ members, rest @ extra)))))"

subsection \<open>In JSON\<close>

text \<open>A JSON array as \<open>save\<close> leaves it: \<^verbatim>\<open>null\<close> as long as no element was referenced.\<close>

definition json_array_of :: "json list \<Rightarrow> json" where
  "json_array_of elements = (if elements = [] then JNull else JArray elements)"

text \<open>The members of the JSON object of a class after its \<^verbatim>\<open>Class\<close> key: one per entry of
  the descriptor, \<^verbatim>\<open>null\<close> under the name of a placeholder, the archived member \<open>j\<close>
  under the name of a member.\<close>

fun json_entries :: "property list \<Rightarrow> json list \<Rightarrow> (string \<times> json) list" where
  "json_entries [] js = []"
| "json_entries (reflection_empty n # props) js = (n, JNull) # json_entries props js"
| "json_entries (reflection_impl n t # props) [] = []"
| "json_entries (reflection_impl n t # props) (j # js) = (n, j) # json_entries props js"

text \<open>
  A value round-trips through JSON: \<open>save\<close> turns a null node into \<open>j\<close>, and \<open>load\<close> returns
  the value from \<open>j\<close> and leaves \<open>j\<close> as it is. An object is saved to the same \<open>j\<close> from
  a node that already carries its class name, which is how a shared pointer saves it.
\<close>

definition json_round_trip ::
  "class_decl list \<Rightarrow> (string \<times> ty) list \<Rightarrow> ty \<Rightarrow> val \<Rightarrow> val \<Rightarrow> bool" where
  "json_round_trip ct reg T x target =
     (\<exists>j. save ct (json_wrapper reg) T x JNull = Inr j
        \<and> (\<forall>c. T = TClass c \<longrightarrow>
              (\<exists>es. j = JObject ((CLASS_NAME, JString c) # es))
              \<and> save ct (json_wrapper reg) T x (JObject [(CLASS_NAME, JString c)]) = Inr j)
        \<and> (\<forall>fuel. Suc (size x) \<le> fuel \<longrightarrow>
              load ct (json_wrapper reg) fuel T target j = Inr (x, j)))"

text \<open>The same for the loops, on the array node once it holds the elements \<open>pre\<close>.\<close>

definition json_items ::
  "class_decl list \<Rightarrow> (string \<times> ty) list \<Rightarrow> ty \<Rightarrow> val list \<Rightarrow> bool" where
  "json_items ct reg E elements =
     (\<exists>js. length js = length elements
      \<and> (\<forall>pre. save_container ct (json_wrapper reg) E elements (length pre) (json_array_of pre)
                  = Inr (json_array_of (pre @ js)))
      \<and> (\<forall>fuel acc pre post. size_list size elements \<le> fuel \<longrightarrow>
            load_container_loop (json_wrapper reg) (load ct (json_wrapper reg) fuel E)
              (default_val ct E) [length pre..<length pre + length elements] acc
              (JArray (pre @ js @ post))
            = Inr (acc @ elements, JArray (pre @ js @ post)))
      \<and> (\<forall>k fuel acc pre post. size_list size elements \<le> fuel \<longrightarrow>
            load_set_loop (json_wrapper reg) k (load ct (json_wrapper reg) fuel E)
              (default_val ct E) [length pre..<length pre + length elements] acc
              (JArray (pre @ js @ post))
            = Inr (foldl (\<lambda>c x. set_emplace k x c) acc elements, JArray (pre @ js @ post))))"

text \<open>The elements of a \<^verbatim>\<open>std::array\<close>.\<close>

definition json_fixed ::
  "class_decl list \<Rightarrow> (string \<times> ty) list \<Rightarrow> ty \<Rightarrow> val list \<Rightarrow> val list \<Rightarrow> bool" where
  "json_fixed ct reg E elements targets =
     (length targets = length elements
      \<and> (\<exists>js. length js = length elements
         \<and> (\<forall>pre. save_container ct (json_wrapper reg) E elements (length pre) (json_array_of pre)
                     = Inr (json_array_of (pre @ js)))
         \<and> (\<forall>fuel tpre pre post. size_list size elements \<le> fuel \<longrightarrow> length tpre = length pre \<longrightarrow>
               load_array_loop (json_wrapper reg) (load ct (json_wrapper reg) fuel E)
                 [length pre..<length pre + length elements] (tpre @ targets)
                 (JArray (pre @ js @ post))
               = Inr (tpre @ elements, JArray (pre @ js @ post)))))"

text \<open>The elements of a tuple.\<close>

definition json_tuple ::
  "class_decl list \<Rightarrow> (string \<times> ty) list \<Rightarrow> ty list \<Rightarrow> val list \<Rightarrow> val list \<Rightarrow> bool" where
  "json_tuple ct reg Ts elements targets =
     (length Ts = length elements
      \<and> (\<exists>js. length js = length elements
         \<and> (\<forall>pre. save_tuple_impl ct (json_wrapper reg) Ts elements (length pre) (json_array_of pre)
                     = Inr (json_array_of (pre @ js)))
         \<and> (\<forall>fuel pre post. size_list size elements \<le> fuel \<longrightarrow>
               load_tuple_impl (json_wrapper reg) (map (load ct (json_wrapper reg) fuel) Ts)
                 targets (length pre) (JArray (pre @ js @ post))
               = Inr (elements, JArray (pre @ js @ post)))))"

text \<open>The entries of a map: key \<open>m\<close> at index \<open>2 * m\<close>, its value at \<open>2 * m + 1\<close>.\<close>

definition json_pairs ::
  "class_decl list \<Rightarrow> (string \<times> ty) list \<Rightarrow> ty \<Rightarrow> ty \<Rightarrow> (val \<times> val) list \<Rightarrow> bool" where
  "json_pairs ct reg K V pairs =
     (\<exists>js. length js = 2 * length pairs
      \<and> (\<forall>pre. save_map ct (json_wrapper reg) K V pairs (length pre) (json_array_of pre)
                  = Inr (json_array_of (pre @ js)))
      \<and> (\<forall>k fuel acc m pre post. size_list (size_prod size size) pairs \<le> fuel \<longrightarrow>
            length pre = 2 * m \<longrightarrow>
            load_map_loop (json_wrapper reg) k (load ct (json_wrapper reg) fuel K)
              (load ct (json_wrapper reg) fuel V) (default_val ct K) (default_val ct V)
              [m..<m + length pairs] acc (JArray (pre @ js @ post))
            = Inr (foldl (\<lambda>c kv. map_emplace k kv c) acc pairs, JArray (pre @ js @ post))))"

text \<open>The members of an object, on the object node once it holds the members \<open>pre\<close>.\<close>

definition json_members ::
  "class_decl list \<Rightarrow> (string \<times> ty) list \<Rightarrow> (string \<times> ty) list
     \<Rightarrow> (string \<times> val) list \<Rightarrow> (string \<times> val) list \<Rightarrow> bool" where
  "json_members ct reg mps members target_members =
     (map fst members = map fst mps
      \<and> (\<exists>js. length js = length mps
         \<and> (\<forall>props every pre. member_props props = mps \<longrightarrow>
               distinct (map fst pre @ map name props) \<longrightarrow>
               (\<forall>n x. (n, x) \<in> set members \<longrightarrow> map_of every n = Some x) \<longrightarrow>
               save_properties ct (json_wrapper reg) props every (JObject pre)
               = Inr (JObject (pre @ json_entries props js)))
         \<and> (\<forall>props tpre fuel ms. member_props props = mps \<longrightarrow>
               distinct (map fst tpre @ map fst mps) \<longrightarrow>
               (\<forall>n j. (n, j) \<in> set (json_entries props js) \<longrightarrow> map_of ms n = Some j) \<longrightarrow>
               size_list (size_prod (\<lambda>x. 0) size) members \<le> fuel \<longrightarrow>
               load_properties (json_wrapper reg) (load ct (json_wrapper reg) fuel) props
                 (tpre @ target_members) (JObject ms)
               = Inr (tpre @ members, JObject ms))))"

subsection \<open>In XML\<close>

text \<open>The values the XML wrapper stores as the text of one element: an integer, a boolean,
  the empty-sum placeholder (nothing is stored), and a string without an embedded NUL
  (\<^verbatim>\<open>set(obj.c_str())\<close> stops at the first one).\<close>

fun xml_scalar :: "ty \<Rightarrow> val \<Rightarrow> bool" where
  "xml_scalar TInt (VInt i) = True"
| "xml_scalar TBool (VBool b) = True"
| "xml_scalar TMonostate VMonostate = True"
| "xml_scalar TString (VString s) = (c_str s = s)"
| "xml_scalar T x = False"

section \<open>The wrappers, field by field\<close>

lemma json_wrapper_sel [simp]:
  "aw_push (json_wrapper reg) = json_push"
  "aw_pop (json_wrapper reg) = json_pop"
  "aw_push_class_name (json_wrapper reg) = json_push_class_name"
  "aw_pop_class_name (json_wrapper reg) = json_pop_class_name"
  "aw_push_index (json_wrapper reg) = json_push_index"
  "aw_pop_index (json_wrapper reg) = json_pop_index"
  "aw_get_name (json_wrapper reg) = json_key_ref"
  "aw_put_name (json_wrapper reg) = json_key_assign"
  "aw_get_idx (json_wrapper reg) = json_idx_ref"
  "aw_put_idx (json_wrapper reg) = json_idx_assign"
  "aw_resize (json_wrapper reg) = (\<lambda>n archive. Inr archive)"
  "aw_size (json_wrapper reg) = (\<lambda>archive. Inr (json_size archive, archive))"
  "aw_registry (json_wrapper reg) = reg"
  by (simp_all add: json_wrapper_def)

lemma binary_wrapper_sel [simp]:
  "aw_push (binary_wrapper sc reg) = binary_push sc"
  "aw_pop (binary_wrapper sc reg) = binary_pop sc"
  "aw_push_class_name (binary_wrapper sc reg)
     = (\<lambda>nm archive. stream_insert (item_string nm) archive)"
  "aw_pop_class_name (binary_wrapper sc reg) = binary_pop_class_name"
  "aw_push_index (binary_wrapper sc reg) = binary_push_index"
  "aw_pop_index (binary_wrapper sc reg) = (\<lambda>index_name archive. extract_uint archive)"
  "aw_get_name (binary_wrapper sc reg) = (\<lambda>idx archive. Inr archive)"
  "aw_put_name (binary_wrapper sc reg) = (\<lambda>idx archive child. child)"
  "aw_get_idx (binary_wrapper sc reg) = (\<lambda>idx archive. Inr archive)"
  "aw_put_idx (binary_wrapper sc reg) = (\<lambda>idx archive child. child)"
  "aw_resize (binary_wrapper sc reg) = binary_resize"
  "aw_size (binary_wrapper sc reg) = binary_size"
  "aw_registry (binary_wrapper sc reg) = reg"
  by (simp_all add: binary_wrapper_def)

lemma xml_wrapper_sel [simp]:
  "aw_push (xml_wrapper reg) = xml_push"
  "aw_pop (xml_wrapper reg) = xml_pop"
  "aw_push_class_name (xml_wrapper reg) = xml_push_class_name"
  "aw_pop_class_name (xml_wrapper reg) = xml_pop_class_name"
  "aw_push_index (xml_wrapper reg) = xml_push_index"
  "aw_pop_index (xml_wrapper reg) = xml_pop_index"
  "aw_get_name (xml_wrapper reg) = xml_get_name"
  "aw_put_name (xml_wrapper reg) = (\<lambda>idx. xml_put)"
  "aw_get_idx (xml_wrapper reg) = xml_get_idx"
  "aw_put_idx (xml_wrapper reg) = (\<lambda>idx. xml_put)"
  "aw_resize (xml_wrapper reg) = xml_resize"
  "aw_size (xml_wrapper reg) = xml_size"
  "aw_registry (xml_wrapper reg) = reg"
  by (simp_all add: xml_wrapper_def)

lemma SERIALIZATION_CHECK_passes [simp]: "SERIALIZATION_CHECK condition code = Inr ()"
  by (simp add: SERIALIZATION_CHECK_def SERIALIZATION_THROW_def)

section \<open>Descriptors and tags\<close>

lemma MAKE_T_ARG_LIST_nonempty: "MAKE_T_ARG_LIST n op args = Some ps \<Longrightarrow> ps \<noteq> []"
  by (induction n op args rule: MAKE_T_ARG_LIST.induct)
     (auto split: list.splits option.splits if_splits)

lemma properties_nonempty: "properties ct T = Some props \<Longrightarrow> props \<noteq> []"
  by (induction ct T rule: properties.induct)
     (auto split: if_splits reflection_macro.splits option.splits
           dest: MAKE_T_ARG_LIST_nonempty)

lemma narrow_index: "i < 256 \<Longrightarrow> (ucast (of_nat i :: 8 word) :: 32 word) = of_nat i"
  by (simp add: unsigned_of_nat take_bit_nat_eq_self)

lemma unat_index: "i < 256 \<Longrightarrow> unat (of_nat i :: 32 word) = i"
  by (simp add: unat_of_nat)

section \<open>Round trips\<close>

subsection \<open>Byte stream: scalars and optionals\<close>

lemma stream_round_tripI:
  assumes "\<And>s. save ct (binary_wrapper sc reg) T x s = Inr (s @ items)"
    and "\<And>fuel rest. size x \<le> fuel \<Longrightarrow>
            \<exists>extra. load ct (binary_wrapper sc reg) (Suc fuel) T target (items @ rest)
                       = Inr (x, rest @ extra)"
  shows "stream_round_trip ct sc reg T x target"
  unfolding stream_round_trip_def
proof (rule exI[of _ items], intro conjI allI impI)
  fix s show "save ct (binary_wrapper sc reg) T x s = Inr (s @ items)" by (rule assms(1))
next
  fix fuel rest assume "Suc (size x) \<le> fuel"
  then obtain f where "fuel = Suc f" "size x \<le> f" by (cases fuel) auto
  with assms(2)[of f rest]
  show "\<exists>extra. load ct (binary_wrapper sc reg) fuel T target (items @ rest) = Inr (x, rest @ extra)"
    by simp
qed

lemmas stream_simps = stream_insert_def binary_resize_def binary_size_def binary_push_index_def
  binary_pop_class_name_def

lemma unat_count: "n < 2 ^ 32 \<Longrightarrow> unat (of_nat n :: 32 word) = n"
  by (simp add: unat_of_nat)

lemma scalar_int: "stream_round_trip ct sc reg TInt (VInt i) target"
  by (rule stream_round_tripI[where items = "[item_int i]"]) (simp_all add: stream_simps)

lemma scalar_bool: "stream_round_trip ct sc reg TBool (VBool i) target"
  by (rule stream_round_tripI[where items = "[item_bool i]"]) (simp_all add: stream_simps)

lemma scalar_string: "stream_round_trip ct sc reg TString (VString i) target"
  by (rule stream_round_tripI[where items = "[item_string i]"]) (simp_all add: stream_simps)

lemma scalar_mono: "stream_round_trip ct sc reg TMonostate VMonostate target"
  by (rule stream_round_tripI[where items = "[item_uchar 0]"]) (simp_all add: stream_simps)

lemma load_bool_stream:
  "0 < fuel \<Longrightarrow> load ct (binary_wrapper sc reg) fuel TBool t (item_bool b # r) = Inr (VBool b, r)"
  by (cases fuel) simp_all

lemma none_optional: "stream_round_trip ct sc reg (TOptional E) (VOptional None) target"
proof (rule stream_round_tripI[where items = "[item_uint 2, item_bool False]"])
  fix s show "save ct (binary_wrapper sc reg) (TOptional E) (VOptional None) s = Inr (s @ [item_uint 2, item_bool False])"
    by (simp add: stream_simps)
next
  fix fuel rest assume "size (VOptional None) \<le> fuel"
  then obtain f where "fuel = Suc f" by (cases fuel) auto
  then show "\<exists>extra. load ct (binary_wrapper sc reg) (Suc fuel) (TOptional E) target ([item_uint 2, item_bool False] @ rest) = Inr (VOptional None, rest @ extra)"
    by (simp add: stream_simps load_optional_def)
qed

lemma some_optional:
  assumes "stream_round_trip ct sc reg E x (default_val ct E)"
  shows "stream_round_trip ct sc reg (TOptional E) (VOptional (Some x)) target"
proof -
  from assms obtain items where
    sv: "\<And>s. save ct (binary_wrapper sc reg) E x s = Inr (s @ items)"
    and ld: "\<And>fuel rest. Suc (size x) \<le> fuel \<Longrightarrow>
            \<exists>extra. load ct (binary_wrapper sc reg) fuel E (default_val ct E) (items @ rest)
                       = Inr (x, rest @ extra)"
    using assms unfolding stream_round_trip_def by blast
  show ?thesis
  proof (rule stream_round_tripI[where items = "item_uint 2 # item_bool True # items"])
    fix s show "save ct (binary_wrapper sc reg) (TOptional E) (VOptional (Some x)) s = Inr (s @ item_uint 2 # item_bool True # items)"
      by (simp add: stream_simps sv)
  next
    fix fuel rest assume "size (VOptional (Some x)) \<le> fuel"
    then have f: "Suc (size x) \<le> fuel" by simp
    from ld[OF f, of rest] obtain extra where
      "load ct (binary_wrapper sc reg) fuel E (default_val ct E) (items @ rest) = Inr (x, rest @ extra)" ..
    with f show "\<exists>extra. load ct (binary_wrapper sc reg) (Suc fuel) (TOptional E) target ((item_uint 2 # item_bool True # items) @ rest) = Inr (VOptional (Some x), rest @ extra)"
      by (simp add: stream_simps load_optional_def load_bool_stream)
  qed
qed

subsection \<open>Lists, containers and members\<close>

lemma upt_shift: "[n..<n + Suc m] = n # [Suc n..<Suc n + m]"
  by (subst upt_conv_Cons) simp_all

lemma val_less_asym: "val_less a b \<Longrightarrow> \<not> val_less b a"
  by (cases a; cases b) auto

lemma set_emplace_ordered_last:
  "sorted_wrt val_less (acc @ [x]) \<Longrightarrow> set_emplace_ordered x acc = acc @ [x]"
  by (induction acc) (auto simp: val_less_asym)

lemma foldl_set_emplace_ordered:
  "sorted_wrt val_less (acc @ items)
   \<Longrightarrow> foldl (\<lambda>c x. set_emplace ordered_unique x c) acc items = acc @ items"
proof (induction items arbitrary: acc)
  case Nil then show ?case by simp
next
  case (Cons x items)
  from Cons.prems have s: "sorted_wrt val_less ((acc @ [x]) @ items)" by simp
  then have "sorted_wrt val_less (acc @ [x])" unfolding sorted_wrt_append by blast
  then have "set_emplace_ordered x acc = acc @ [x]" by (rule set_emplace_ordered_last)
  with Cons.IH[OF s] show ?case by simp
qed

lemma foldl_set_emplace_unordered:
  "distinct (acc @ items)
   \<Longrightarrow> foldl (\<lambda>c x. set_emplace unordered_unique x c) acc items = acc @ items"
proof (induction items arbitrary: acc)
  case Nil then show ?case by simp
next
  case (Cons x items)
  from Cons.prems have s: "distinct ((acc @ [x]) @ items)" by simp
  from Cons.prems have "x \<notin> set acc" by auto
  with Cons.IH[OF s] show ?case by simp
qed

lemma map_emplace_ordered_last:
  "sorted_wrt val_less (map fst acc @ [k]) \<Longrightarrow> map_emplace_ordered (k, v) acc = acc @ [(k, v)]"
  by (induction acc) (auto simp: val_less_asym)

lemma foldl_map_emplace_ordered:
  "sorted_wrt val_less (map fst acc @ map fst pairs)
   \<Longrightarrow> foldl (\<lambda>c kv. map_emplace ordered_unique kv c) acc pairs = acc @ pairs"
proof (induction pairs arbitrary: acc)
  case Nil then show ?case by simp
next
  case (Cons kv pairs)
  obtain k v where kv: "kv = (k, v)" by (cases kv)
  from Cons.prems have s: "sorted_wrt val_less (map fst (acc @ [kv]) @ map fst pairs)" by simp
  then have "sorted_wrt val_less (map fst (acc @ [kv]))" unfolding sorted_wrt_append by blast
  then have "map_emplace_ordered (k, v) acc = acc @ [(k, v)]"
    using kv by (intro map_emplace_ordered_last) simp
  with Cons.IH[OF s] kv show ?case by simp
qed

lemma foldl_map_emplace_unordered:
  "distinct (map fst acc @ map fst pairs)
   \<Longrightarrow> foldl (\<lambda>c kv. map_emplace unordered_unique kv c) acc pairs = acc @ pairs"
proof (induction pairs arbitrary: acc)
  case Nil then show ?case by simp
next
  case (Cons kv pairs)
  from Cons.prems have s: "distinct (map fst (acc @ [kv]) @ map fst pairs)" by simp
  from Cons.prems have "fst kv \<notin> fst ` set acc" by auto
  with Cons.IH[OF s] show ?case by simp
qed

lemma save_member_map_of:
  "map_of members n = Some x
   \<Longrightarrow> save_member ct aw member_type n members archive = save ct aw member_type x archive"
  by (induction members) (auto split: if_splits)

lemma map_of_append_fresh:
  "n \<notin> fst ` set done \<Longrightarrow> map_of (done @ (n, v) # r) n = Some v"
  by (induction "done") auto

lemma object_update_fresh:
  "n \<notin> fst ` set done \<Longrightarrow> object_update n x (done @ (n, v) # r) = done @ (n, x) # r"
  by (induction "done") auto

lemma distinct_member_props:
  "distinct (map name props) \<Longrightarrow> distinct (map fst (member_props props))"
proof (induction props rule: member_props.induct)
  case 1 then show ?case by simp
next
  case (2 n t props)
  have "fst ` set (member_props ps) \<subseteq> name ` set ps" for ps
    by (induction ps rule: member_props.induct) auto
  with 2 show ?case by auto
next
  case (3 n props) then show ?case by simp
qed

subsection \<open>Byte stream: the loops\<close>

lemma stream_items_Nil: "stream_items ct sc reg E []"
  unfolding stream_items_def by (rule exI[of _ "[]"]) simp

lemma stream_items_Cons:
  assumes x: "stream_round_trip ct sc reg E x (default_val ct E)"
    and xs: "stream_items ct sc reg E elements"
  shows "stream_items ct sc reg E (x # elements)"
proof -
  let ?B = "binary_wrapper sc reg"
  from x obtain o1 where
    sv1: "\<And>s. save ct ?B E x s = Inr (s @ o1)"
    and ld1: "\<And>fuel rest. Suc (size x) \<le> fuel \<Longrightarrow>
            \<exists>extra. load ct ?B fuel E (default_val ct E) (o1 @ rest) = Inr (x, rest @ extra)"
    unfolding stream_round_trip_def by blast
  from xs obtain o2 where
    sv2: "\<And>s i. save_container ct ?B E elements i s = Inr (s @ o2)"
    and ld2: "\<And>fuel rest acc idxs. size_list size elements \<le> fuel \<Longrightarrow> length idxs = length elements \<Longrightarrow>
            \<exists>extra. load_container_loop ?B (load ct ?B fuel E) (default_val ct E) idxs acc (o2 @ rest)
                      = Inr (acc @ elements, rest @ extra)"
    and ld3: "\<And>k fuel rest acc idxs. size_list size elements \<le> fuel \<Longrightarrow> length idxs = length elements \<Longrightarrow>
            \<exists>extra. load_set_loop ?B k (load ct ?B fuel E) (default_val ct E) idxs acc (o2 @ rest)
                      = Inr (foldl (\<lambda>c x. set_emplace k x c) acc elements, rest @ extra)"
    unfolding stream_items_def by blast
  show ?thesis
    unfolding stream_items_def
  proof (rule exI[of _ "o1 @ o2"], intro conjI allI impI)
    fix s i show "save_container ct ?B E (x # elements) i s = Inr (s @ o1 @ o2)"
      by (simp add: sv1 sv2)
  next
    fix fuel rest acc and idxs :: "nat list"
    assume f: "size_list size (x # elements) \<le> fuel" and l: "length idxs = length (x # elements)"
    from l obtain i idxs' where idxs: "idxs = i # idxs'" "length idxs' = length elements"
      by (cases idxs) auto
    from f have f1: "Suc (size x) \<le> fuel" and f2: "size_list size elements \<le> fuel" by simp_all
    from ld1[OF f1, of "o2 @ rest"] obtain e1 where
      e1: "load ct ?B fuel E (default_val ct E) (o1 @ o2 @ rest) = Inr (x, (o2 @ rest) @ e1)" ..
    from ld2[OF f2 idxs(2), of "acc @ [x]" "rest @ e1"] obtain e2 where
      e2: "load_container_loop ?B (load ct ?B fuel E) (default_val ct E) idxs' (acc @ [x]) (o2 @ rest @ e1)
            = Inr ((acc @ [x]) @ elements, (rest @ e1) @ e2)" ..
    show "\<exists>extra. load_container_loop ?B (load ct ?B fuel E) (default_val ct E) idxs acc ((o1 @ o2) @ rest)
                      = Inr (acc @ x # elements, rest @ extra)"
      using e1 e2 by (simp add: idxs)
  next
    fix k fuel rest acc and idxs :: "nat list"
    assume f: "size_list size (x # elements) \<le> fuel" and l: "length idxs = length (x # elements)"
    from l obtain i idxs' where idxs: "idxs = i # idxs'" "length idxs' = length elements"
      by (cases idxs) auto
    from f have f1: "Suc (size x) \<le> fuel" and f2: "size_list size elements \<le> fuel" by simp_all
    from ld1[OF f1, of "o2 @ rest"] obtain e1 where
      e1: "load ct ?B fuel E (default_val ct E) (o1 @ o2 @ rest) = Inr (x, (o2 @ rest) @ e1)" ..
    from ld3[OF f2 idxs(2), of k "set_emplace k x acc" "rest @ e1"] obtain e2 where
      e2: "load_set_loop ?B k (load ct ?B fuel E) (default_val ct E) idxs' (set_emplace k x acc) (o2 @ rest @ e1)
            = Inr (foldl (\<lambda>c x. set_emplace k x c) (set_emplace k x acc) elements, (rest @ e1) @ e2)" ..
    show "\<exists>extra. load_set_loop ?B k (load ct ?B fuel E) (default_val ct E) idxs acc ((o1 @ o2) @ rest)
                      = Inr (foldl (\<lambda>c x. set_emplace k x c) acc (x # elements), rest @ extra)"
      using e1 e2 by (simp add: idxs)
  qed
qed

lemma stream_array_Nil: "stream_array ct sc reg E [] []"
  unfolding stream_array_def by (rule conjI, simp, rule exI[of _ "[]"], simp)

lemma stream_array_Cons:
  assumes x: "stream_round_trip ct sc reg E x target"
    and xs: "stream_array ct sc reg E elements targets"
  shows "stream_array ct sc reg E (x # elements) (target # targets)"
proof -
  let ?B = "binary_wrapper sc reg"
  from x obtain o1 where
    sv1: "\<And>s. save ct ?B E x s = Inr (s @ o1)"
    and ld1: "\<And>fuel rest. Suc (size x) \<le> fuel \<Longrightarrow>
            \<exists>extra. load ct ?B fuel E target (o1 @ rest) = Inr (x, rest @ extra)"
    unfolding stream_round_trip_def by blast
  from xs obtain o2 where
    len: "length targets = length elements"
    and sv2: "\<And>s i. save_container ct ?B E elements i s = Inr (s @ o2)"
    and ld2: "\<And>fuel rest pre. size_list size elements \<le> fuel \<Longrightarrow>
            \<exists>extra. load_array_loop ?B (load ct ?B fuel E)
                        [length pre..<length pre + length elements] (pre @ targets) (o2 @ rest)
                      = Inr (pre @ elements, rest @ extra)"
    unfolding stream_array_def by blast
  have "\<exists>out. (\<forall>s i. save_container ct ?B E (x # elements) i s = Inr (s @ out))
         \<and> (\<forall>fuel rest pre. size_list size (x # elements) \<le> fuel \<longrightarrow>
               (\<exists>extra. load_array_loop ?B (load ct ?B fuel E)
                           [length pre..<length pre + length (x # elements)] (pre @ target # targets)
                           (out @ rest)
                         = Inr (pre @ x # elements, rest @ extra)))"
  proof (rule exI[of _ "o1 @ o2"], intro conjI allI impI)
    fix s i show "save_container ct ?B E (x # elements) i s = Inr (s @ o1 @ o2)"
      by (simp add: sv1 sv2)
  next
    fix fuel rest and pre :: "val list"
    assume f: "size_list size (x # elements) \<le> fuel"
    from f have f1: "Suc (size x) \<le> fuel" and f2: "size_list size elements \<le> fuel" by simp_all
    have idxs: "[length pre..<length pre + length (x # elements)]
                 = length pre # [length (pre @ [x])..<length (pre @ [x]) + length elements]"
      using upt_shift[of "length pre" "length elements"] by simp
    from ld1[OF f1, of "o2 @ rest"] obtain e1 where
      e1: "load ct ?B fuel E target (o1 @ o2 @ rest) = Inr (x, (o2 @ rest) @ e1)" ..
    from ld2[OF f2, of "pre @ [x]" "rest @ e1"] obtain e2 where
      e2: "load_array_loop ?B (load ct ?B fuel E)
             [length (pre @ [x])..<length (pre @ [x]) + length elements] ((pre @ [x]) @ targets)
             (o2 @ rest @ e1)
            = Inr ((pre @ [x]) @ elements, (rest @ e1) @ e2)" ..
    show "\<exists>extra. load_array_loop ?B (load ct ?B fuel E)
                    [length pre..<length pre + length (x # elements)] (pre @ target # targets)
                    ((o1 @ o2) @ rest)
                  = Inr (pre @ x # elements, rest @ extra)"
      unfolding idxs using e1 e2 by simp
  qed
  with len show ?thesis unfolding stream_array_def by simp
qed

lemma stream_pairs_Nil: "stream_pairs ct sc reg K V []"
  unfolding stream_pairs_def by (rule exI[of _ "[]"]) simp

lemma stream_pairs_Cons:
  assumes key: "stream_round_trip ct sc reg K key (default_val ct K)"
    and val: "stream_round_trip ct sc reg V value (default_val ct V)"
    and xs: "stream_pairs ct sc reg K V pairs"
  shows "stream_pairs ct sc reg K V ((key, value) # pairs)"
proof -
  let ?B = "binary_wrapper sc reg"
  from key obtain o1 where
    sv1: "\<And>s. save ct ?B K key s = Inr (s @ o1)"
    and ld1: "\<And>fuel rest. Suc (size key) \<le> fuel \<Longrightarrow>
            \<exists>extra. load ct ?B fuel K (default_val ct K) (o1 @ rest) = Inr (key, rest @ extra)"
    unfolding stream_round_trip_def by blast
  from val obtain o2 where
    sv2: "\<And>s. save ct ?B V value s = Inr (s @ o2)"
    and ld2: "\<And>fuel rest. Suc (size value) \<le> fuel \<Longrightarrow>
            \<exists>extra. load ct ?B fuel V (default_val ct V) (o2 @ rest) = Inr (value, rest @ extra)"
    unfolding stream_round_trip_def by blast
  from xs obtain o3 where
    sv3: "\<And>s i. save_map ct ?B K V pairs i s = Inr (s @ o3)"
    and ld3: "\<And>k fuel rest acc idxs. size_list (size_prod size size) pairs \<le> fuel \<Longrightarrow>
            length idxs = length pairs \<Longrightarrow>
            \<exists>extra. load_map_loop ?B k (load ct ?B fuel K) (load ct ?B fuel V)
                        (default_val ct K) (default_val ct V) idxs acc (o3 @ rest)
                      = Inr (foldl (\<lambda>c kv. map_emplace k kv c) acc pairs, rest @ extra)"
    unfolding stream_pairs_def by blast
  show ?thesis
    unfolding stream_pairs_def
  proof (rule exI[of _ "o1 @ o2 @ o3"], intro conjI allI impI)
    fix s i show "save_map ct ?B K V ((key, value) # pairs) i s = Inr (s @ o1 @ o2 @ o3)"
      by (simp add: sv1 sv2 sv3)
  next
    fix k fuel rest acc and idxs :: "nat list"
    assume f: "size_list (size_prod size size) ((key, value) # pairs) \<le> fuel"
      and l: "length idxs = length ((key, value) # pairs)"
    from l obtain i idxs' where idxs: "idxs = i # idxs'" "length idxs' = length pairs"
      by (cases idxs) auto
    from f have f1: "Suc (size key) \<le> fuel" and f2: "Suc (size value) \<le> fuel"
      and f3: "size_list (size_prod size size) pairs \<le> fuel" by simp_all
    from ld1[OF f1, of "o2 @ o3 @ rest"] obtain e1 where
      e1: "load ct ?B fuel K (default_val ct K) (o1 @ o2 @ o3 @ rest)
             = Inr (key, (o2 @ o3 @ rest) @ e1)" ..
    from ld2[OF f2, of "o3 @ rest @ e1"] obtain e2 where
      e2: "load ct ?B fuel V (default_val ct V) (o2 @ o3 @ rest @ e1)
             = Inr (value, (o3 @ rest @ e1) @ e2)" ..
    from ld3[OF f3 idxs(2), of k "map_emplace k (key, value) acc" "rest @ e1 @ e2"] obtain e3 where
      e3: "load_map_loop ?B k (load ct ?B fuel K) (load ct ?B fuel V)
             (default_val ct K) (default_val ct V) idxs' (map_emplace k (key, value) acc)
             (o3 @ rest @ e1 @ e2)
            = Inr (foldl (\<lambda>c kv. map_emplace k kv c) (map_emplace k (key, value) acc) pairs,
                   (rest @ e1 @ e2) @ e3)" ..
    show "\<exists>extra. load_map_loop ?B k (load ct ?B fuel K) (load ct ?B fuel V)
                    (default_val ct K) (default_val ct V) idxs acc ((o1 @ o2 @ o3) @ rest)
                  = Inr (foldl (\<lambda>c kv. map_emplace k kv c) acc ((key, value) # pairs), rest @ extra)"
      using e1 e2 e3 by (simp add: idxs)
  qed
qed

lemma stream_tuple_Nil: "stream_tuple ct sc reg [] [] []"
  unfolding stream_tuple_def by (rule conjI, simp, rule exI[of _ "[]"], simp)

lemma stream_tuple_Cons:
  assumes x: "stream_round_trip ct sc reg T x target"
    and xs: "stream_tuple ct sc reg Ts elements targets"
  shows "stream_tuple ct sc reg (T # Ts) (x # elements) (target # targets)"
proof -
  let ?B = "binary_wrapper sc reg"
  from x obtain o1 where
    sv1: "\<And>s. save ct ?B T x s = Inr (s @ o1)"
    and ld1: "\<And>fuel rest. Suc (size x) \<le> fuel \<Longrightarrow>
            \<exists>extra. load ct ?B fuel T target (o1 @ rest) = Inr (x, rest @ extra)"
    unfolding stream_round_trip_def by blast
  from xs obtain o2 where
    len: "length Ts = length elements"
    and sv2: "\<And>s i. save_tuple_impl ct ?B Ts elements i s = Inr (s @ o2)"
    and ld2: "\<And>fuel rest i. size_list size elements \<le> fuel \<Longrightarrow>
            \<exists>extra. load_tuple_impl ?B (map (load ct ?B fuel) Ts) targets i (o2 @ rest)
                      = Inr (elements, rest @ extra)"
    unfolding stream_tuple_def by blast
  have "\<exists>out. (\<forall>s i. save_tuple_impl ct ?B (T # Ts) (x # elements) i s = Inr (s @ out))
         \<and> (\<forall>fuel rest i. size_list size (x # elements) \<le> fuel \<longrightarrow>
               (\<exists>extra. load_tuple_impl ?B (map (load ct ?B fuel) (T # Ts)) (target # targets) i
                           (out @ rest)
                         = Inr (x # elements, rest @ extra)))"
  proof (rule exI[of _ "o1 @ o2"], intro conjI allI impI)
    fix s i show "save_tuple_impl ct ?B (T # Ts) (x # elements) i s = Inr (s @ o1 @ o2)"
      by (simp add: sv1 sv2)
  next
    fix fuel rest i
    assume f: "size_list size (x # elements) \<le> fuel"
    from f have f1: "Suc (size x) \<le> fuel" and f2: "size_list size elements \<le> fuel" by simp_all
    from ld1[OF f1, of "o2 @ rest"] obtain e1 where
      e1: "load ct ?B fuel T target (o1 @ o2 @ rest) = Inr (x, (o2 @ rest) @ e1)" ..
    from ld2[OF f2, of "Suc i" "rest @ e1"] obtain e2 where
      e2: "load_tuple_impl ?B (map (load ct ?B fuel) Ts) targets (Suc i) (o2 @ rest @ e1)
            = Inr (elements, (rest @ e1) @ e2)" ..
    show "\<exists>extra. load_tuple_impl ?B (map (load ct ?B fuel) (T # Ts)) (target # targets) i
                    ((o1 @ o2) @ rest)
                  = Inr (x # elements, rest @ extra)"
      using e1 e2 by simp
  qed
  with len show ?thesis unfolding stream_tuple_def by simp
qed

lemma stream_members_Nil: "stream_members ct sc reg [] [] []"
proof -
  let ?B = "binary_wrapper sc reg"
  have sv: "member_props props = [] \<Longrightarrow> save_properties ct ?B props every s = Inr s"
    for props every s
    by (induction props arbitrary: s rule: member_props.induct) simp_all
  have ld: "member_props props = []
            \<Longrightarrow> load_properties ?B l props ms rest = Inr (ms, rest)" for props l ms rest
    by (induction props rule: member_props.induct) simp_all
  show ?thesis
    unfolding stream_members_def
    by (rule conjI, simp, rule exI[of _ "[]"]) (simp add: sv ld)
qed

lemma stream_members_Cons:
  assumes x: "stream_round_trip ct sc reg member_type x target"
    and xs: "stream_members ct sc reg mps members target_members"
  shows "stream_members ct sc reg ((n, member_type) # mps) ((n, x) # members)
           ((n, target) # target_members)"
proof -
  let ?B = "binary_wrapper sc reg"
  from x obtain o1 where
    sv1: "\<And>s. save ct ?B member_type x s = Inr (s @ o1)"
    and ld1: "\<And>fuel rest. Suc (size x) \<le> fuel \<Longrightarrow>
            \<exists>extra. load ct ?B fuel member_type target (o1 @ rest) = Inr (x, rest @ extra)"
    unfolding stream_round_trip_def by blast
  from xs obtain o2 where
    names: "map fst members = map fst mps"
    and sv2: "\<And>props every s. member_props props = mps \<Longrightarrow>
               (\<forall>n x. (n, x) \<in> set members \<longrightarrow> map_of every n = Some x) \<Longrightarrow>
               save_properties ct ?B props every s = Inr (s @ o2)"
    and ld2: "\<And>props pre fuel rest. member_props props = mps \<Longrightarrow>
               distinct (map fst pre @ map fst mps) \<Longrightarrow>
               size_list (size_prod (\<lambda>x. 0) size) members \<le> fuel \<Longrightarrow>
               \<exists>extra. load_properties ?B (load ct ?B fuel) props (pre @ target_members)
                           (o2 @ rest)
                         = Inr (pre @ members, rest @ extra)"
    unfolding stream_members_def by blast
  have sv: "save_properties ct ?B props every s = Inr (s @ o1 @ o2)"
    if "member_props props = (n, member_type) # mps"
      and ev: "\<forall>n' x'. (n', x') \<in> set ((n, x) # members) \<longrightarrow> map_of every n' = Some x'"
    for props every s
    using that(1)
  proof (induction props arbitrary: s rule: member_props.induct)
    case 1 then show ?case by simp
  next
    case (2 n' t' props)
    then have eq: "n' = n" "t' = member_type" "member_props props = mps" by simp_all
    from ev have "map_of every n = Some x" by simp
    then have m: "save_member ct ?B member_type n every s = save ct ?B member_type x s"
      by (rule save_member_map_of)
    from ev have "\<forall>n' x'. (n', x') \<in> set members \<longrightarrow> map_of every n' = Some x'" by simp
    from sv2[OF eq(3) this] show ?case by (simp add: eq m sv1)
  next
    case (3 n' props) then show ?case by simp
  qed
  have ld: "\<exists>extra. load_properties ?B (load ct ?B fuel) props (pre @ (n, target) # target_members)
                           ((o1 @ o2) @ rest)
                         = Inr (pre @ (n, x) # members, rest @ extra)"
    if "member_props props = (n, member_type) # mps"
      and d: "distinct (map fst pre @ map fst ((n, member_type) # mps))"
      and f: "size_list (size_prod (\<lambda>x. 0) size) ((n, x) # members) \<le> fuel"
    for props pre fuel rest
    using that(1)
  proof (induction props rule: member_props.induct)
    case 1 then show ?case by simp
  next
    case (2 n' t' props)
    then have eq: "n' = n" "t' = member_type" "member_props props = mps" by simp_all
    from d have fresh: "n \<notin> fst ` set pre" by auto
    from f have f1: "Suc (size x) \<le> fuel"
      and f2: "size_list (size_prod (\<lambda>x. 0) size) members \<le> fuel" by simp_all
    from d have d2: "distinct (map fst (pre @ [(n, x)]) @ map fst mps)" by auto
    from ld1[OF f1, of "o2 @ rest"] obtain e1 where
      e1: "load ct ?B fuel member_type target (o1 @ o2 @ rest) = Inr (x, (o2 @ rest) @ e1)" ..
    from ld2[OF eq(3) d2 f2, of "rest @ e1"] obtain e2 where
      e2: "load_properties ?B (load ct ?B fuel) props ((pre @ [(n, x)]) @ target_members)
             (o2 @ rest @ e1)
           = Inr ((pre @ [(n, x)]) @ members, (rest @ e1) @ e2)" ..
    show ?case
      using e1 e2
      by (simp add: eq map_of_append_fresh[OF fresh] object_update_fresh[OF fresh]
               del: map_of_append)
  next
    case (3 n' props) then show ?case by simp
  qed
  show ?thesis
    unfolding stream_members_def
  proof (rule conjI)
    show "map fst ((n, x) # members) = map fst ((n, member_type) # mps)" using names by simp
  next
    show "\<exists>out. (\<forall>props every s. member_props props = (n, member_type) # mps \<longrightarrow>
               (\<forall>n' x'. (n', x') \<in> set ((n, x) # members) \<longrightarrow> map_of every n' = Some x') \<longrightarrow>
               save_properties ct ?B props every s = Inr (s @ out))
         \<and> (\<forall>props pre fuel rest. member_props props = (n, member_type) # mps \<longrightarrow>
               distinct (map fst pre @ map fst ((n, member_type) # mps)) \<longrightarrow>
               size_list (size_prod (\<lambda>x. 0) size) ((n, x) # members) \<le> fuel \<longrightarrow>
               (\<exists>extra. load_properties ?B (load ct ?B fuel) props
                           (pre @ (n, target) # target_members) (out @ rest)
                         = Inr (pre @ (n, x) # members, rest @ extra)))"
      by (rule exI[of _ "o1 @ o2"]) (use sv ld in blast)
  qed
qed

subsection \<open>Byte stream: the values\<close>

lemma stream_vector:
  assumes xs: "stream_items ct sc reg E elements" and n: "length elements < 2 ^ 32"
  shows "stream_round_trip ct sc reg (TVector E) (VSeq elements) target"
proof -
  let ?B = "binary_wrapper sc reg"
  from xs obtain out where
    sv: "\<And>s i. save_container ct ?B E elements i s = Inr (s @ out)"
    and ld: "\<And>fuel rest acc idxs. size_list size elements \<le> fuel \<Longrightarrow> length idxs = length elements \<Longrightarrow>
            \<exists>extra. load_container_loop ?B (load ct ?B fuel E) (default_val ct E) idxs acc (out @ rest)
                      = Inr (acc @ elements, rest @ extra)"
    unfolding stream_items_def by blast
  show ?thesis
  proof (rule stream_round_tripI[where items = "item_uint (of_nat (length elements)) # out"])
    fix s show "save ct ?B (TVector E) (VSeq elements) s
                  = Inr (s @ item_uint (of_nat (length elements)) # out)"
      by (simp add: stream_simps sv)
  next
    fix fuel rest assume "size (VSeq elements) \<le> fuel"
    then have f: "size_list size elements \<le> fuel" by simp
    from ld[OF f, of "[0..<length elements]" "[]" rest] obtain e where
      "load_container_loop ?B (load ct ?B fuel E) (default_val ct E) [0..<length elements] []
         (out @ rest) = Inr ([] @ elements, rest @ e)" by auto
    then show "\<exists>extra. load ct ?B (Suc fuel) (TVector E) target
                 ((item_uint (of_nat (length elements)) # out) @ rest)
               = Inr (VSeq elements, rest @ extra)"
      by (simp add: stream_simps load_container_def unat_count[OF n])
  qed
qed

lemma stream_set:
  assumes xs: "stream_items ct sc reg E elements" and n: "length elements < 2 ^ 32"
    and order: "case k of ordered_unique \<Rightarrow> sorted_wrt val_less elements
                        | unordered_unique \<Rightarrow> distinct elements"
  shows "stream_round_trip ct sc reg (TSet k E) (VSeq elements) target"
proof -
  let ?B = "binary_wrapper sc reg"
  from xs obtain out where
    sv: "\<And>s i. save_container ct ?B E elements i s = Inr (s @ out)"
    and ld: "\<And>k fuel rest acc idxs. size_list size elements \<le> fuel \<Longrightarrow> length idxs = length elements \<Longrightarrow>
            \<exists>extra. load_set_loop ?B k (load ct ?B fuel E) (default_val ct E) idxs acc (out @ rest)
                      = Inr (foldl (\<lambda>c x. set_emplace k x c) acc elements, rest @ extra)"
    unfolding stream_items_def by blast
  have same: "foldl (\<lambda>c x. set_emplace k x c) [] elements = elements"
    using order foldl_set_emplace_ordered[of "[]" elements]
      foldl_set_emplace_unordered[of "[]" elements]
    by (cases k) simp_all
  show ?thesis
  proof (rule stream_round_tripI[where items = "item_uint (of_nat (length elements)) # out"])
    fix s show "save ct ?B (TSet k E) (VSeq elements) s
                  = Inr (s @ item_uint (of_nat (length elements)) # out)"
      by (simp add: stream_simps sv)
  next
    fix fuel rest assume "size (VSeq elements) \<le> fuel"
    then have f: "size_list size elements \<le> fuel" by simp
    from ld[OF f, of "[0..<length elements]" k "[]" rest] obtain e where
      "load_set_loop ?B k (load ct ?B fuel E) (default_val ct E) [0..<length elements] []
         (out @ rest) = Inr (elements, rest @ e)" unfolding same by auto
    then show "\<exists>extra. load ct ?B (Suc fuel) (TSet k E) target
                 ((item_uint (of_nat (length elements)) # out) @ rest)
               = Inr (VSeq elements, rest @ extra)"
      by (simp add: stream_simps load_associative_container_set_def unat_count[OF n])
  qed
qed

lemma stream_array_value:
  assumes xs: "stream_array ct sc reg E elements targets"
  shows "stream_round_trip ct sc reg (TArray (length elements) E) (VSeq elements) (VSeq targets)"
proof -
  let ?B = "binary_wrapper sc reg"
  from xs obtain out where
    len: "length targets = length elements"
    and sv: "\<And>s i. save_container ct ?B E elements i s = Inr (s @ out)"
    and ld: "\<And>fuel rest pre. size_list size elements \<le> fuel \<Longrightarrow>
            \<exists>extra. load_array_loop ?B (load ct ?B fuel E)
                        [length pre..<length pre + length elements] (pre @ targets) (out @ rest)
                      = Inr (pre @ elements, rest @ extra)"
    unfolding stream_array_def by blast
  show ?thesis
  proof (rule stream_round_tripI[where items = "item_uint (of_nat (length elements)) # out"])
    fix s show "save ct ?B (TArray (length elements) E) (VSeq elements) s
                  = Inr (s @ item_uint (of_nat (length elements)) # out)"
      by (simp add: stream_simps sv)
  next
    fix fuel rest assume "size (VSeq elements) \<le> fuel"
    then have f: "size_list size elements \<le> fuel" by simp
    from ld[OF f, of "[]" rest] obtain e where
      "load_array_loop ?B (load ct ?B fuel E) [0..<length elements] targets
         (out @ rest) = Inr (elements, rest @ e)" by auto
    then show "\<exists>extra. load ct ?B (Suc fuel) (TArray (length elements) E) (VSeq targets)
                 ((item_uint (of_nat (length elements)) # out) @ rest)
               = Inr (VSeq elements, rest @ extra)"
      by (simp add: stream_simps load_array_def len)
  qed
qed

lemma stream_map:
  assumes xs: "stream_pairs ct sc reg K V pairs" and n: "2 * length pairs < 2 ^ 32"
    and order: "case k of ordered_unique \<Rightarrow> sorted_wrt val_less (map fst pairs)
                        | unordered_unique \<Rightarrow> distinct (map fst pairs)"
  shows "stream_round_trip ct sc reg (TMap k K V) (VMap pairs) target"
proof -
  let ?B = "binary_wrapper sc reg"
  from xs obtain out where
    sv: "\<And>s i. save_map ct ?B K V pairs i s = Inr (s @ out)"
    and ld: "\<And>k fuel rest acc idxs. size_list (size_prod size size) pairs \<le> fuel \<Longrightarrow>
            length idxs = length pairs \<Longrightarrow>
            \<exists>extra. load_map_loop ?B k (load ct ?B fuel K) (load ct ?B fuel V)
                        (default_val ct K) (default_val ct V) idxs acc (out @ rest)
                      = Inr (foldl (\<lambda>c kv. map_emplace k kv c) acc pairs, rest @ extra)"
    unfolding stream_pairs_def by blast
  have same: "foldl (\<lambda>c kv. map_emplace k kv c) [] pairs = pairs"
    using order foldl_map_emplace_ordered[of "[]" pairs]
      foldl_map_emplace_unordered[of "[]" pairs]
    by (cases k) simp_all
  show ?thesis
  proof (rule stream_round_tripI[where items = "item_uint (of_nat (2 * length pairs)) # out"])
    fix s show "save ct ?B (TMap k K V) (VMap pairs) s
                  = Inr (s @ item_uint (of_nat (2 * length pairs)) # out)"
      by (simp add: stream_simps sv)
  next
    fix fuel rest assume "size (VMap pairs) \<le> fuel"
    then have f: "size_list (size_prod size size) pairs \<le> fuel" by simp
    from ld[OF f, of "[0..<length pairs]" k "[]" rest] obtain e where
      "load_map_loop ?B k (load ct ?B fuel K) (load ct ?B fuel V)
         (default_val ct K) (default_val ct V) [0..<length pairs] []
         (out @ rest) = Inr (pairs, rest @ e)" unfolding same by auto
    then show "\<exists>extra. load ct ?B (Suc fuel) (TMap k K V) target
                 ((item_uint (of_nat (2 * length pairs)) # out) @ rest)
               = Inr (VMap pairs, rest @ extra)"
      using unat_count[OF n]
      by (simp add: stream_simps load_associative_container_map_def)
  qed
qed

lemma stream_pair:
  assumes a: "stream_round_trip ct sc reg First first target_first"
    and b: "stream_round_trip ct sc reg Second second target_second"
  shows "stream_round_trip ct sc reg (TPair First Second) (VPair first second)
           (VPair target_first target_second)"
proof -
  let ?B = "binary_wrapper sc reg"
  from a obtain o1 where
    sv1: "\<And>s. save ct ?B First first s = Inr (s @ o1)"
    and ld1: "\<And>fuel rest. Suc (size first) \<le> fuel \<Longrightarrow>
            \<exists>extra. load ct ?B fuel First target_first (o1 @ rest) = Inr (first, rest @ extra)"
    unfolding stream_round_trip_def by blast
  from b obtain o2 where
    sv2: "\<And>s. save ct ?B Second second s = Inr (s @ o2)"
    and ld2: "\<And>fuel rest. Suc (size second) \<le> fuel \<Longrightarrow>
            \<exists>extra. load ct ?B fuel Second target_second (o2 @ rest) = Inr (second, rest @ extra)"
    unfolding stream_round_trip_def by blast
  show ?thesis
  proof (rule stream_round_tripI[where items = "o1 @ o2"])
    fix s show "save ct ?B (TPair First Second) (VPair first second) s = Inr (s @ o1 @ o2)"
      by (simp add: sv1 sv2)
  next
    fix fuel rest assume "size (VPair first second) \<le> fuel"
    then have f1: "Suc (size first) \<le> fuel" and f2: "Suc (size second) \<le> fuel" by simp_all
    from ld1[OF f1, of "o2 @ rest"] obtain e1 where
      e1: "load ct ?B fuel First target_first (o1 @ o2 @ rest) = Inr (first, (o2 @ rest) @ e1)" ..
    from ld2[OF f2, of "rest @ e1"] obtain e2 where
      e2: "load ct ?B fuel Second target_second (o2 @ rest @ e1) = Inr (second, (rest @ e1) @ e2)" ..
    show "\<exists>extra. load ct ?B (Suc fuel) (TPair First Second) (VPair target_first target_second)
                 ((o1 @ o2) @ rest)
               = Inr (VPair first second, rest @ extra)"
      using e1 e2 by (simp add: load_pair_def)
  qed
qed

lemma stream_tuple_value:
  assumes xs: "stream_tuple ct sc reg Ts elements targets"
  shows "stream_round_trip ct sc reg (TTuple Ts) (VTuple elements) (VTuple targets)"
proof -
  let ?B = "binary_wrapper sc reg"
  from xs obtain out where
    sv: "\<And>s i. save_tuple_impl ct ?B Ts elements i s = Inr (s @ out)"
    and ld: "\<And>fuel rest i. size_list size elements \<le> fuel \<Longrightarrow>
            \<exists>extra. load_tuple_impl ?B (map (load ct ?B fuel) Ts) targets i (out @ rest)
                      = Inr (elements, rest @ extra)"
    unfolding stream_tuple_def by blast
  show ?thesis
  proof (rule stream_round_tripI[where items = "item_uint (of_nat (length Ts)) # out"])
    fix s show "save ct ?B (TTuple Ts) (VTuple elements) s
                  = Inr (s @ item_uint (of_nat (length Ts)) # out)"
      by (simp add: stream_simps sv)
  next
    fix fuel rest assume "size (VTuple elements) \<le> fuel"
    then have f: "size_list size elements \<le> fuel" by simp
    from ld[OF f, of 0 rest] obtain e where
      "load_tuple_impl ?B (map (load ct ?B fuel) Ts) targets 0 (out @ rest)
         = Inr (elements, rest @ e)" ..
    then show "\<exists>extra. load ct ?B (Suc fuel) (TTuple Ts) (VTuple targets)
                 ((item_uint (of_nat (length Ts)) # out) @ rest)
               = Inr (VTuple elements, rest @ extra)"
      by (simp add: stream_simps load_tuple_def)
  qed
qed

lemma stream_variant:
  assumes n: "length Ts \<le> 255" and i: "variant_index < length Ts"
    and x: "stream_round_trip ct sc reg (Ts ! variant_index) x
              (case target of
                 VVariant held y \<Rightarrow>
                   if held = variant_index then y else default_val ct (Ts ! variant_index)
               | _ \<Rightarrow> default_val ct (Ts ! variant_index))"
  shows "stream_round_trip ct sc reg (TVariant Ts) (VVariant variant_index x) target"
proof -
  let ?B = "binary_wrapper sc reg"
  let ?t = "case target of
                 VVariant held y \<Rightarrow>
                   if held = variant_index then y else default_val ct (Ts ! variant_index)
               | _ \<Rightarrow> default_val ct (Ts ! variant_index)"
  from n i have small: "variant_index < 256" by simp
  from x obtain o1 where
    sv1: "\<And>s. save ct ?B (Ts ! variant_index) x s = Inr (s @ o1)"
    and ld1: "\<And>fuel rest. Suc (size x) \<le> fuel \<Longrightarrow>
            \<exists>extra. load ct ?B fuel (Ts ! variant_index) ?t (o1 @ rest) = Inr (x, rest @ extra)"
    unfolding stream_round_trip_def by blast
  show ?thesis
  proof (rule stream_round_tripI[where items = "item_uint (of_nat variant_index) # o1"])
    fix s show "save ct ?B (TVariant Ts) (VVariant variant_index x) s
                  = Inr (s @ item_uint (of_nat variant_index) # o1)"
      using n i by (simp add: stream_simps sv1 narrow_index[OF small])
  next
    fix fuel rest assume "size (VVariant variant_index x) \<le> fuel"
    then have f: "Suc (size x) \<le> fuel" by simp
    from ld1[OF f, of rest] obtain e where
      e: "load ct ?B fuel (Ts ! variant_index) ?t (o1 @ rest) = Inr (x, rest @ e)" ..
    show "\<exists>extra. load ct ?B (Suc fuel) (TVariant Ts) target
                 ((item_uint (of_nat variant_index) # o1) @ rest)
               = Inr (VVariant variant_index x, rest @ extra)"
      using n i e by (simp add: load_variant_def unat_index[OF small] cong: val.case_cong if_cong)
  qed
qed

lemma stream_unique:
  assumes x: "stream_round_trip ct sc reg E x (default_val ct E)"
  shows "stream_round_trip ct sc reg (TUnique E) (VPtr (Some x)) target"
proof -
  let ?B = "binary_wrapper sc reg"
  from x obtain o1 where
    sv1: "\<And>s. save ct ?B E x s = Inr (s @ o1)"
    and ld1: "\<And>fuel rest. Suc (size x) \<le> fuel \<Longrightarrow>
            \<exists>extra. load ct ?B fuel E (default_val ct E) (o1 @ rest) = Inr (x, rest @ extra)"
    unfolding stream_round_trip_def by blast
  show ?thesis
  proof (rule stream_round_tripI[where items = o1])
    fix s show "save ct ?B (TUnique E) (VPtr (Some x)) s = Inr (s @ o1)"
      by (simp add: sv1)
  next
    fix fuel rest assume "size (VPtr (Some x)) \<le> fuel"
    then have f: "Suc (size x) \<le> fuel" by simp
    from ld1[OF f, of rest] obtain e where
      e: "load ct ?B fuel E (default_val ct E) (o1 @ rest) = Inr (x, rest @ e)" ..
    then show "\<exists>extra. load ct ?B (Suc fuel) (TUnique E) target (o1 @ rest)
               = Inr (VPtr (Some x), rest @ extra)"
      by (simp add: load_unique_def)
  qed
qed

lemma stream_shared_null: "stream_round_trip ct sc reg (TShared E) (VPtr None) target"
  by (rule stream_round_tripI[where items = "[item_string EMPTY_NAME]"])
     (simp_all add: stream_simps load_shared_def)

lemma admissible_class_no_optional [simp]:
  "\<not> admissible fmt ct reg (TClass c) (VOptional opt) target"
  by (cases opt) simp_all

lemma admissible_class_no_pointer [simp]:
  "\<not> admissible fmt ct reg (TClass c) (VPtr ptr) target"
  by (cases ptr) simp_all

lemma admissible_object:
  assumes "admissible fmt ct reg (TClass c) x target"
  obtains members props d target_members where
    "x = VObject c members" "target = VObject c target_members"
    "properties ct c = Some props" "lookup_class ct c = Some d"
    "c \<noteq> EMPTY_NAME" "distinct (map name props)"
    "fmt = json_format \<Longrightarrow> CLASS_NAME \<notin> set (map name props)"
    "initialize d members = members"
    "admissible_members fmt ct reg (member_props props) members target_members"
  using assms
  by (cases x) (auto split: option.splits val.splits)

lemma stream_shared:
  assumes adm: "admissible fmt ct reg (TClass c) x (default_val ct (TClass c))"
    and reg: "case map_of reg c of None \<Rightarrow> True | Some R \<Rightarrow> R = TClass c"
    and x: "stream_round_trip ct sc reg (TClass c) x (default_val ct (TClass c))"
  shows "stream_round_trip ct sc reg (TShared (TClass c)) (VPtr (Some x)) target"
proof -
  let ?B = "binary_wrapper sc reg"
  from adm obtain members props where
    obj: "x = VObject c members" and props: "properties ct c = Some props"
    and c: "c \<noteq> EMPTY_NAME"
    by (rule admissible_object)
  from x obtain o1 where
    sv1: "\<And>s. save ct ?B (TClass c) x s = Inr (s @ o1)"
    and ld1: "\<And>fuel rest. Suc (size x) \<le> fuel \<Longrightarrow>
            \<exists>extra. load ct ?B fuel (TClass c) (default_val ct (TClass c)) (o1 @ rest)
                     = Inr (x, rest @ extra)"
    unfolding stream_round_trip_def by blast
  have nm: "polymorphic_type_name ct (TClass c) x = c" by (simp add: obj)
  show ?thesis
  proof (rule stream_round_tripI[where items = "item_string c # o1"])
    fix s show "save ct ?B (TShared (TClass c)) (VPtr (Some x)) s = Inr (s @ item_string c # o1)"
      using props sv1 by (simp add: nm stream_simps del: polymorphic_type_name.simps)
  next
    fix fuel rest assume "size (VPtr (Some x)) \<le> fuel"
    then have f: "Suc (size x) \<le> fuel" by simp
    show "\<exists>extra. load ct ?B (Suc fuel) (TShared (TClass c)) target ((item_string c # o1) @ rest)
               = Inr (VPtr (Some x), rest @ extra)"
    proof (cases "map_of reg c")
      case None
      from ld1[OF f, of "rest @ [item_string c]"] obtain e where
        e: "load ct ?B fuel (TClass c) (default_val ct (TClass c)) (o1 @ rest @ [item_string c])
              = Inr (x, (rest @ [item_string c]) @ e)" ..
      show ?thesis
        using None props c e
        by (simp add: load_shared_def stream_simps del: default_val.simps)
    next
      case (Some R)
      with reg have R: "R = TClass c" by simp
      from ld1[OF f, of rest] obtain e where
        e: "load ct ?B fuel (TClass c) (default_val ct (TClass c)) (o1 @ rest)
              = Inr (x, rest @ e)" ..
      show ?thesis
        using Some R props c e
        by (simp add: load_shared_def stream_simps del: default_val.simps)
    qed
  qed
qed

lemma admissible_members_names:
  "admissible_members fmt ct reg mps members target_members
   \<Longrightarrow> map fst members = map fst mps \<and> map fst target_members = map fst mps"
  by (induction mps arbitrary: members target_members)
     (auto elim: admissible_members.elims)

lemma stream_object:
  assumes adm: "admissible fmt ct reg (TClass c) x target"
    and ms: "\<And>props members target_members.
               properties ct c = Some props \<Longrightarrow> x = VObject c members
               \<Longrightarrow> target = VObject c target_members
               \<Longrightarrow> stream_members ct sc reg (member_props props) members target_members"
  shows "stream_round_trip ct sc reg (TClass c) x target"
proof -
  let ?B = "binary_wrapper sc reg"
  from adm obtain members props d target_members where
    obj: "x = VObject c members" and tgt: "target = VObject c target_members"
    and props: "properties ct c = Some props" and d: "lookup_class ct c = Some d"
    and c: "c \<noteq> EMPTY_NAME" and dist: "distinct (map name props)"
    and init: "initialize d members = members"
    by (rule admissible_object)
  from ms[OF props obj tgt] obtain out where
    names: "map fst members = map fst (member_props props)"
    and sv: "\<And>every s. (\<forall>n x. (n, x) \<in> set members \<longrightarrow> map_of every n = Some x) \<Longrightarrow>
               save_properties ct ?B props every s = Inr (s @ out)"
    and ld: "\<And>pre fuel rest. distinct (map fst pre @ map fst (member_props props)) \<Longrightarrow>
               size_list (size_prod (\<lambda>x. 0) size) members \<le> fuel \<Longrightarrow>
               \<exists>extra. load_properties ?B (load ct ?B fuel) props (pre @ target_members)
                           (out @ rest)
                         = Inr (pre @ members, rest @ extra)"
    unfolding stream_members_def by blast
  have dm: "distinct (map fst (member_props props))" using dist by (rule distinct_member_props)
  then have "distinct (map fst members)" using names by simp
  then have "\<forall>n x. (n, x) \<in> set members \<longrightarrow> map_of members n = Some x" by simp
  note sv' = sv[OF this]
  have ne: "props \<noteq> []" using props by (rule properties_nonempty)
  show ?thesis
  proof (rule stream_round_tripI[where items = "item_string c # out"])
    fix s show "save ct ?B (TClass c) x s = Inr (s @ item_string c # out)"
      using props sv' by (simp add: obj stream_simps)
  next
    fix fuel rest assume "size x \<le> fuel"
    then have f: "size_list (size_prod (\<lambda>x. 0) size) members \<le> fuel" by (simp add: obj)
    from dm have "distinct (map fst [] @ map fst (member_props props))" by simp
    from ld[OF this f, of rest] obtain e where
      e: "load_properties ?B (load ct ?B fuel) props target_members (out @ rest)
            = Inr (members, rest @ e)" by auto
    show "\<exists>extra. load ct ?B (Suc fuel) (TClass c) target ((item_string c # out) @ rest)
               = Inr (x, rest @ extra)"
      using props d c ne e init
      by (simp add: load_object_def obj tgt stream_simps)
  qed
qed

lemma stream_admissible:
  "fmt = binary_format \<longrightarrow> admissible fmt ct reg T x target
     \<longrightarrow> stream_round_trip ct sc reg T x target"
  "fmt = binary_format \<longrightarrow> admissible_items fmt ct reg E elements
     \<longrightarrow> stream_items ct sc reg E elements"
  "fmt = binary_format \<longrightarrow> admissible_array fmt ct reg E' elements' targets'
     \<longrightarrow> stream_array ct sc reg E' elements' targets'"
  "fmt = binary_format \<longrightarrow> admissible_pairs fmt ct reg K V pairs
     \<longrightarrow> stream_pairs ct sc reg K V pairs"
  "fmt = binary_format \<longrightarrow> admissible_tuple fmt ct reg Ts items targets
     \<longrightarrow> stream_tuple ct sc reg Ts items targets"
  "fmt = binary_format \<longrightarrow> admissible_members fmt ct reg mps members target_members
     \<longrightarrow> stream_members ct sc reg mps members target_members"
proof (induction fmt ct reg T x target and fmt ct reg E elements
         and fmt ct reg E' elements' targets' and fmt ct reg K V pairs
         and fmt ct reg Ts items targets and fmt ct reg mps members target_members
       rule: admissible_admissible_items_admissible_array_admissible_pairs_admissible_tuple_admissible_members.induct)
  case (1 fmt ct reg T i target)
  then show ?case by (simp add: scalar_int)
next
  case (2 fmt ct reg T b target)
  then show ?case by (simp add: scalar_bool)
next
  case (3 fmt ct reg T s target)
  then show ?case by (simp add: scalar_string)
next
  case (5 fmt ct reg T target)
  then show ?case by (simp add: scalar_mono)
next
  case (6 fmt ct reg T items target)
  then show ?case
    by (auto split: ty.splits val.splits intro: stream_vector stream_set stream_array_value)
next
  case (7 fmt ct reg T pairs target)
  then show ?case by (auto split: ty.splits intro: stream_map)
next
  case (8 fmt ct reg T first second target)
  then show ?case by (auto split: ty.splits val.splits intro: stream_pair)
next
  case (9 fmt ct reg T items target)
  then show ?case by (auto split: ty.splits val.splits intro: stream_tuple_value)
next
  case (10 fmt ct reg T target)
  then show ?case by (auto split: ty.splits intro: none_optional)
next
  case (11 fmt ct reg T x target)
  then show ?case by (auto split: ty.splits intro: some_optional)
next
  case (12 fmt ct reg T variant_index x target)
  then show ?case by (auto split: ty.splits intro!: stream_variant)
next
  case (14 fmt ct reg T target)
  then show ?case by (auto split: ty.splits intro: stream_shared_null)
next
  case (15 fmt ct reg T x target)
  then show ?case
    by (auto split: ty.splits simp del: default_val.simps intro: stream_unique stream_shared)
next
  case (16 fmt ct reg T dyn members target)
  show ?case
  proof (intro impI)
    assume b: "fmt = binary_format"
      and adm: "admissible fmt ct reg T (VObject dyn members) target"
    then obtain c where T: "T = TClass c" by (cases T) simp_all
    show "stream_round_trip ct sc reg T (VObject dyn members) target"
      unfolding T
    proof (rule stream_object)
      show "admissible fmt ct reg (TClass c) (VObject dyn members) target"
        using adm T by simp
    next
      fix props members' target_members
      assume p: "properties ct c = Some props" and o: "VObject dyn members = VObject c members'"
        and t: "target = VObject c target_members"
      from adm T p t obtain d where d: "lookup_class ct c = Some d"
        by (auto split: option.splits)
      from adm T p t d o have "admissible_members fmt ct reg (member_props props) members target_members"
        by simp
      with 16[OF T refl p refl d t] b o
      show "stream_members ct sc reg (member_props props) members' target_members" by simp
    qed
  qed
next
  case (17 fmt ct reg E)
  then show ?case by (simp add: stream_items_Nil)
next
  case (18 fmt ct reg E x items)
  then show ?case by (simp add: stream_items_Cons)
next
  case (19 fmt ct reg E)
  then show ?case by (simp add: stream_array_Nil)
next
  case (20 fmt ct reg E x items target targets)
  then show ?case by (simp add: stream_array_Cons)
next
  case (22 fmt ct reg K V)
  then show ?case by (simp add: stream_pairs_Nil)
next
  case (23 fmt ct reg K V key val pairs)
  then show ?case by (auto intro: stream_pairs_Cons)
next
  case (24 fmt ct reg)
  then show ?case by (simp add: stream_tuple_Nil)
next
  case (25 fmt ct reg T Ts x items target targets)
  then show ?case by (simp add: stream_tuple_Cons)
next
  case (27 fmt ct reg)
  then show ?case by (simp add: stream_members_Nil)
next
  case (28 fmt ct reg n member_type props m x members target_m target target_members)
  then show ?case by (auto intro: stream_members_Cons)
qed simp_all

subsection \<open>JSON: scalars\<close>

lemma json_round_tripI:
  assumes "save ct (json_wrapper reg) T x JNull = Inr j"
    and "\<And>c. T \<noteq> TClass c"
    and "\<And>fuel. size x \<le> fuel \<Longrightarrow> load ct (json_wrapper reg) (Suc fuel) T target j = Inr (x, j)"
  shows "json_round_trip ct reg T x target"
  unfolding json_round_trip_def
proof (rule exI[of _ j], intro conjI allI impI)
  show "save ct (json_wrapper reg) T x JNull = Inr j" by (rule assms(1))
next
  fix c assume "T = TClass c" with assms(2)[of c]
  show "\<exists>es. j = JObject ((CLASS_NAME, JString c) # es)" by simp
next
  fix c assume "T = TClass c" with assms(2)[of c]
  show "save ct (json_wrapper reg) T x (JObject [(CLASS_NAME, JString c)]) = Inr j" by simp
next
  fix fuel assume "Suc (size x) \<le> fuel"
  then obtain f where "fuel = Suc f" "size x \<le> f" by (cases fuel) auto
  with assms(3)[of f] show "load ct (json_wrapper reg) fuel T target j = Inr (x, j)" by simp
qed

lemma json_idx_ref_end [simp]: "json_idx_ref (length pre) (json_array_of pre) = Inr JNull"
  by (simp add: json_array_of_def)

lemma json_idx_assign_end [simp]:
  "json_idx_assign (length pre) (json_array_of pre) j = json_array_of (pre @ [j])"
  by (simp add: json_array_of_def)

lemma json_idx_ref_mid [simp]:
  "json_idx_ref (length pre) (JArray (pre @ j # post)) = Inr j"
  by simp

lemma json_idx_assign_mid [simp]:
  "json_idx_assign (length pre) (JArray (pre @ j # post)) j = JArray (pre @ j # post)"
  by simp

lemma json_size_array [simp]: "json_size (json_array_of js) = length js"
  by (simp add: json_array_of_def)

lemma object_assign_same: "map_of ms n = Some v \<Longrightarrow> object_assign n v ms = ms"
  by (induction ms) (auto split: if_splits)

lemma object_assign_fresh: "n \<notin> fst ` set pre \<Longrightarrow> object_assign n v pre = pre @ [(n, v)]"
  by (induction pre) auto

lemma map_of_fresh: "n \<notin> fst ` set pre \<Longrightarrow> map_of pre n = None"
  by (simp add: map_of_eq_None_iff)

lemma json_entries_names:
  "length js = length (member_props props) \<Longrightarrow> map fst (json_entries props js) = map name props"
  by (induction props js rule: json_entries.induct) simp_all

lemma scalar_int_json: "json_round_trip ct reg TInt (VInt i) target"
  by (rule json_round_tripI[where j = "JInt i"]) simp_all

lemma scalar_bool_json: "json_round_trip ct reg TBool (VBool i) target"
  by (rule json_round_tripI[where j = "JBool i"]) simp_all

lemma scalar_string_json: "json_round_trip ct reg TString (VString i) target"
  by (rule json_round_tripI[where j = "JString i"]) simp_all

lemma scalar_mono_json: "json_round_trip ct reg TMonostate VMonostate target"
  by (rule json_round_tripI[where j = "JNull"]) simp_all

subsection \<open>JSON: the loops\<close>

lemma json_items_Nil: "json_items ct reg E []"
  unfolding json_items_def by (rule exI[of _ "[]"]) simp

lemma json_items_Cons:
  assumes x: "json_round_trip ct reg E x (default_val ct E)"
    and xs: "json_items ct reg E elements"
  shows "json_items ct reg E (x # elements)"
proof -
  let ?J = "json_wrapper reg"
  from x obtain j where
    sv1: "save ct ?J E x JNull = Inr j"
    and ld1: "\<And>fuel. Suc (size x) \<le> fuel \<Longrightarrow> load ct ?J fuel E (default_val ct E) j = Inr (x, j)"
    unfolding json_round_trip_def by blast
  from xs obtain js where
    len: "length js = length elements"
    and sv2: "\<And>pre. save_container ct ?J E elements (length pre) (json_array_of pre)
                  = Inr (json_array_of (pre @ js))"
    and ld2: "\<And>fuel acc pre post. size_list size elements \<le> fuel \<Longrightarrow>
            load_container_loop ?J (load ct ?J fuel E) (default_val ct E)
              [length pre..<length pre + length elements] acc (JArray (pre @ js @ post))
            = Inr (acc @ elements, JArray (pre @ js @ post))"
    and ld3: "\<And>k fuel acc pre post. size_list size elements \<le> fuel \<Longrightarrow>
            load_set_loop ?J k (load ct ?J fuel E) (default_val ct E)
              [length pre..<length pre + length elements] acc (JArray (pre @ js @ post))
            = Inr (foldl (\<lambda>c x. set_emplace k x c) acc elements, JArray (pre @ js @ post))"
    unfolding json_items_def by blast
  show ?thesis
    unfolding json_items_def
  proof (rule exI[of _ "j # js"], intro conjI allI impI)
    show "length (j # js) = length (x # elements)" using len by simp
  next
    fix pre
    from sv2[of "pre @ [j]"]
    have "save_container ct ?J E elements (Suc (length pre)) (json_array_of (pre @ [j]))
            = Inr (json_array_of (pre @ j # js))" by simp
    then show "save_container ct ?J E (x # elements) (length pre) (json_array_of pre)
            = Inr (json_array_of (pre @ j # js))"
      by (simp add: sv1)
  next
    fix fuel acc pre post
    assume f: "size_list size (x # elements) \<le> fuel"
    from f have f1: "Suc (size x) \<le> fuel" and f2: "size_list size elements \<le> fuel" by simp_all
    from ld2[OF f2, of "pre @ [j]" "acc @ [x]" post]
    have "load_container_loop ?J (load ct ?J fuel E) (default_val ct E)
              [Suc (length pre)..<Suc (length pre) + length elements] (acc @ [x])
              (JArray (pre @ j # js @ post))
            = Inr (acc @ x # elements, JArray (pre @ j # js @ post))" by simp
    then show "load_container_loop ?J (load ct ?J fuel E) (default_val ct E)
              [length pre..<length pre + length (x # elements)] acc
              (JArray (pre @ (j # js) @ post))
            = Inr (acc @ x # elements, JArray (pre @ (j # js) @ post))"
      using upt_shift[of "length pre" "length elements"] ld1[OF f1] by simp
  next
    fix k fuel acc pre post
    assume f: "size_list size (x # elements) \<le> fuel"
    from f have f1: "Suc (size x) \<le> fuel" and f2: "size_list size elements \<le> fuel" by simp_all
    from ld3[OF f2, of k "pre @ [j]" "set_emplace k x acc" post]
    have "load_set_loop ?J k (load ct ?J fuel E) (default_val ct E)
              [Suc (length pre)..<Suc (length pre) + length elements] (set_emplace k x acc)
              (JArray (pre @ j # js @ post))
            = Inr (foldl (\<lambda>c x. set_emplace k x c) (set_emplace k x acc) elements,
                   JArray (pre @ j # js @ post))" by simp
    then show "load_set_loop ?J k (load ct ?J fuel E) (default_val ct E)
              [length pre..<length pre + length (x # elements)] acc
              (JArray (pre @ (j # js) @ post))
            = Inr (foldl (\<lambda>c x. set_emplace k x c) acc (x # elements),
                   JArray (pre @ (j # js) @ post))"
      using upt_shift[of "length pre" "length elements"] ld1[OF f1] by simp
  qed
qed

lemma json_fixed_Nil: "json_fixed ct reg E [] []"
  unfolding json_fixed_def by (rule conjI, simp, rule exI[of _ "[]"], simp)

lemma json_fixed_Cons:
  assumes x: "json_round_trip ct reg E x target"
    and xs: "json_fixed ct reg E elements targets"
  shows "json_fixed ct reg E (x # elements) (target # targets)"
proof -
  let ?J = "json_wrapper reg"
  from x obtain j where
    sv1: "save ct ?J E x JNull = Inr j"
    and ld1: "\<And>fuel. Suc (size x) \<le> fuel \<Longrightarrow> load ct ?J fuel E target j = Inr (x, j)"
    unfolding json_round_trip_def by blast
  from xs obtain js where
    tlen: "length targets = length elements"
    and len: "length js = length elements"
    and sv2: "\<And>pre. save_container ct ?J E elements (length pre) (json_array_of pre)
                  = Inr (json_array_of (pre @ js))"
    and ld2: "\<And>fuel tpre pre post. size_list size elements \<le> fuel \<Longrightarrow> length tpre = length pre \<Longrightarrow>
            load_array_loop ?J (load ct ?J fuel E)
              [length pre..<length pre + length elements] (tpre @ targets) (JArray (pre @ js @ post))
            = Inr (tpre @ elements, JArray (pre @ js @ post))"
    unfolding json_fixed_def by blast
  have "\<exists>js. length js = length (x # elements)
         \<and> (\<forall>pre. save_container ct ?J E (x # elements) (length pre) (json_array_of pre)
                     = Inr (json_array_of (pre @ js)))
         \<and> (\<forall>fuel tpre pre post. size_list size (x # elements) \<le> fuel \<longrightarrow> length tpre = length pre \<longrightarrow>
               load_array_loop ?J (load ct ?J fuel E)
                 [length pre..<length pre + length (x # elements)] (tpre @ target # targets)
                 (JArray (pre @ js @ post))
               = Inr (tpre @ x # elements, JArray (pre @ js @ post)))"
  proof (rule exI[of _ "j # js"], intro conjI allI impI)
    show "length (j # js) = length (x # elements)" using len by simp
  next
    fix pre
    from sv2[of "pre @ [j]"]
    have "save_container ct ?J E elements (Suc (length pre)) (json_array_of (pre @ [j]))
            = Inr (json_array_of (pre @ j # js))" by simp
    then show "save_container ct ?J E (x # elements) (length pre) (json_array_of pre)
            = Inr (json_array_of (pre @ j # js))"
      by (simp add: sv1)
  next
    fix fuel and tpre :: "val list" and pre :: "json list" and post
    assume f: "size_list size (x # elements) \<le> fuel" and l: "length tpre = length pre"
    from f have f1: "Suc (size x) \<le> fuel" and f2: "size_list size elements \<le> fuel" by simp_all
    from l have l2: "length (tpre @ [x]) = length (pre @ [j])" by simp
    from ld2[OF f2 l2, of post]
    have "load_array_loop ?J (load ct ?J fuel E)
              [Suc (length pre)..<Suc (length pre) + length elements] (tpre @ x # targets)
              (JArray (pre @ j # js @ post))
            = Inr (tpre @ x # elements, JArray (pre @ j # js @ post))" by simp
    moreover have "(tpre @ target # targets) ! length pre = target"
      using l[symmetric] by simp
    moreover have "(tpre @ target # targets)[length pre := x] = tpre @ x # targets"
      using l[symmetric] by simp
    ultimately show "load_array_loop ?J (load ct ?J fuel E)
                 [length pre..<length pre + length (x # elements)] (tpre @ target # targets)
                 (JArray (pre @ (j # js) @ post))
               = Inr (tpre @ x # elements, JArray (pre @ (j # js) @ post))"
      using upt_shift[of "length pre" "length elements"] ld1[OF f1] by simp
  qed
  with tlen show ?thesis unfolding json_fixed_def by simp
qed

lemma json_tuple_Nil: "json_tuple ct reg [] [] []"
  unfolding json_tuple_def by (rule conjI, simp, rule exI[of _ "[]"], simp)

lemma json_tuple_Cons:
  assumes x: "json_round_trip ct reg T x target"
    and xs: "json_tuple ct reg Ts elements targets"
  shows "json_tuple ct reg (T # Ts) (x # elements) (target # targets)"
proof -
  let ?J = "json_wrapper reg"
  from x obtain j where
    sv1: "save ct ?J T x JNull = Inr j"
    and ld1: "\<And>fuel. Suc (size x) \<le> fuel \<Longrightarrow> load ct ?J fuel T target j = Inr (x, j)"
    unfolding json_round_trip_def by blast
  from xs obtain js where
    tlen: "length Ts = length elements"
    and len: "length js = length elements"
    and sv2: "\<And>pre. save_tuple_impl ct ?J Ts elements (length pre) (json_array_of pre)
                  = Inr (json_array_of (pre @ js))"
    and ld2: "\<And>fuel pre post. size_list size elements \<le> fuel \<Longrightarrow>
            load_tuple_impl ?J (map (load ct ?J fuel) Ts) targets (length pre)
              (JArray (pre @ js @ post))
            = Inr (elements, JArray (pre @ js @ post))"
    unfolding json_tuple_def by blast
  have "\<exists>js. length js = length (x # elements)
         \<and> (\<forall>pre. save_tuple_impl ct ?J (T # Ts) (x # elements) (length pre) (json_array_of pre)
                     = Inr (json_array_of (pre @ js)))
         \<and> (\<forall>fuel pre post. size_list size (x # elements) \<le> fuel \<longrightarrow>
               load_tuple_impl ?J (map (load ct ?J fuel) (T # Ts)) (target # targets)
                 (length pre) (JArray (pre @ js @ post))
               = Inr (x # elements, JArray (pre @ js @ post)))"
  proof (rule exI[of _ "j # js"], intro conjI allI impI)
    show "length (j # js) = length (x # elements)" using len by simp
  next
    fix pre
    from sv2[of "pre @ [j]"]
    have "save_tuple_impl ct ?J Ts elements (Suc (length pre)) (json_array_of (pre @ [j]))
            = Inr (json_array_of (pre @ j # js))" by simp
    then show "save_tuple_impl ct ?J (T # Ts) (x # elements) (length pre) (json_array_of pre)
            = Inr (json_array_of (pre @ j # js))"
      by (simp add: sv1)
  next
    fix fuel and pre :: "json list" and post
    assume f: "size_list size (x # elements) \<le> fuel"
    from f have f1: "Suc (size x) \<le> fuel" and f2: "size_list size elements \<le> fuel" by simp_all
    from ld2[OF f2, of "pre @ [j]" post]
    have "load_tuple_impl ?J (map (load ct ?J fuel) Ts) targets (Suc (length pre))
              (JArray (pre @ j # js @ post))
            = Inr (elements, JArray (pre @ j # js @ post))" by simp
    then show "load_tuple_impl ?J (map (load ct ?J fuel) (T # Ts)) (target # targets)
                 (length pre) (JArray (pre @ (j # js) @ post))
               = Inr (x # elements, JArray (pre @ (j # js) @ post))"
      using ld1[OF f1] by simp
  qed
  with tlen show ?thesis unfolding json_tuple_def by simp
qed

lemma json_pairs_Nil: "json_pairs ct reg K V []"
  unfolding json_pairs_def by (rule exI[of _ "[]"]) simp

lemma json_pairs_Cons:
  assumes key: "json_round_trip ct reg K key (default_val ct K)"
    and val: "json_round_trip ct reg V val (default_val ct V)"
    and xs: "json_pairs ct reg K V pairs"
  shows "json_pairs ct reg K V ((key, val) # pairs)"
proof -
  let ?J = "json_wrapper reg"
  from key obtain jk where
    sv1: "save ct ?J K key JNull = Inr jk"
    and ld1: "\<And>fuel. Suc (size key) \<le> fuel \<Longrightarrow> load ct ?J fuel K (default_val ct K) jk = Inr (key, jk)"
    unfolding json_round_trip_def by blast
  from val obtain jv where
    sv2: "save ct ?J V val JNull = Inr jv"
    and ld2: "\<And>fuel. Suc (size val) \<le> fuel \<Longrightarrow> load ct ?J fuel V (default_val ct V) jv = Inr (val, jv)"
    unfolding json_round_trip_def by blast
  from xs obtain js where
    len: "length js = 2 * length pairs"
    and sv3: "\<And>pre. save_map ct ?J K V pairs (length pre) (json_array_of pre)
                  = Inr (json_array_of (pre @ js))"
    and ld3: "\<And>k fuel acc m pre post. size_list (size_prod size size) pairs \<le> fuel \<Longrightarrow>
            length pre = 2 * m \<Longrightarrow>
            load_map_loop ?J k (load ct ?J fuel K) (load ct ?J fuel V)
              (default_val ct K) (default_val ct V)
              [m..<m + length pairs] acc (JArray (pre @ js @ post))
            = Inr (foldl (\<lambda>c kv. map_emplace k kv c) acc pairs, JArray (pre @ js @ post))"
    unfolding json_pairs_def by blast
  show ?thesis
    unfolding json_pairs_def
  proof (rule exI[of _ "jk # jv # js"], intro conjI allI impI)
    show "length (jk # jv # js) = 2 * length ((key, val) # pairs)" using len by simp
  next
    fix pre
    from sv3[of "pre @ [jk, jv]"]
    have a: "save_map ct ?J K V pairs (Suc (Suc (length pre))) (json_array_of (pre @ [jk, jv]))
            = Inr (json_array_of (pre @ jk # jv # js))" by simp
    have b: "json_idx_ref (Suc (length pre)) (json_array_of (pre @ [jk])) = Inr JNull"
      using json_idx_ref_end[of "pre @ [jk]"] by simp
    have c: "json_idx_assign (Suc (length pre)) (json_array_of (pre @ [jk])) jv
               = json_array_of (pre @ [jk, jv])"
      using json_idx_assign_end[of "pre @ [jk]" jv] by simp
    show "save_map ct ?J K V ((key, val) # pairs) (length pre) (json_array_of pre)
            = Inr (json_array_of (pre @ jk # jv # js))"
      by (simp add: sv1 sv2 a b c)
  next
    fix k fuel acc m and pre :: "json list" and post
    assume f: "size_list (size_prod size size) ((key, val) # pairs) \<le> fuel"
      and l: "length pre = 2 * m"
    let ?A = "JArray (pre @ (jk # jv # js) @ post)"
    from f have f1: "Suc (size key) \<le> fuel" and f2: "Suc (size val) \<le> fuel"
      and f3: "size_list (size_prod size size) pairs \<le> fuel" by simp_all
    from l have l2: "length (pre @ [jk, jv]) = 2 * Suc m" by simp
    have eqA: "(pre @ [jk, jv]) @ js @ post = pre @ (jk # jv # js) @ post" by simp
    have rest: "load_map_loop ?J k (load ct ?J fuel K) (load ct ?J fuel V)
              (default_val ct K) (default_val ct V)
              [Suc m..<Suc m + length pairs] (map_emplace k (key, val) acc) ?A
            = Inr (foldl (\<lambda>c kv. map_emplace k kv c) (map_emplace k (key, val) acc) pairs, ?A)"
      using ld3[OF f3 l2, of k "map_emplace k (key, val) acc" post] unfolding eqA .
    have r0: "json_idx_ref (2 * m) ?A = Inr jk"
      using json_idx_ref_mid[of pre jk "jv # js @ post"] l by simp
    have a0: "json_idx_assign (2 * m) ?A jk = ?A"
      using json_idx_assign_mid[of pre jk "jv # js @ post"] l by simp
    have r1: "json_idx_ref (2 * m + 1) ?A = Inr jv"
      using json_idx_ref_mid[of "pre @ [jk]" jv "js @ post"] l by simp
    have a1: "json_idx_assign (2 * m + 1) ?A jv = ?A"
      using json_idx_assign_mid[of "pre @ [jk]" jv "js @ post"] l by simp
    have idx: "[m..<m + length ((key, val) # pairs)] = m # [Suc m..<Suc m + length pairs]"
      using upt_shift[of m "length pairs"] by simp
    have step: "load_map_loop ?J k (load ct ?J fuel K) (load ct ?J fuel V)
              (default_val ct K) (default_val ct V)
              (m # [Suc m..<Suc m + length pairs]) acc ?A
            = Inr (foldl (\<lambda>c kv. map_emplace k kv c) (map_emplace k (key, val) acc) pairs, ?A)"
      by (simp only: load_map_loop.simps json_wrapper_sel r0 a0 r1 a1 ld1[OF f1] ld2[OF f2]
            sum.case prod.case rest)
    show "load_map_loop ?J k (load ct ?J fuel K) (load ct ?J fuel V)
              (default_val ct K) (default_val ct V)
              [m..<m + length ((key, val) # pairs)] acc ?A
            = Inr (foldl (\<lambda>c kv. map_emplace k kv c) acc ((key, val) # pairs), ?A)"
      unfolding idx foldl_Cons by (rule step)
  qed
qed

lemma save_properties_placeholder:
  "n \<notin> fst ` set pre
   \<Longrightarrow> save_properties ct (json_wrapper reg) (reflection_empty n # props) every (JObject pre)
       = save_properties ct (json_wrapper reg) props every (JObject (pre @ [(n, JNull)]))"
  by (simp add: map_of_fresh object_assign_fresh)

lemma save_properties_member:
  "n \<notin> fst ` set pre \<Longrightarrow> map_of every n = Some x
   \<Longrightarrow> save ct (json_wrapper reg) member_type x JNull = Inr j
   \<Longrightarrow> save_properties ct (json_wrapper reg) (reflection_impl n member_type # props) every
         (JObject pre)
       = save_properties ct (json_wrapper reg) props every (JObject (pre @ [(n, j)]))"
  by (simp add: map_of_fresh object_assign_fresh save_member_map_of)

lemma load_properties_placeholder:
  "map_of ms n = Some JNull
   \<Longrightarrow> load_properties (json_wrapper reg) l (reflection_empty n # props) tms (JObject ms)
       = load_properties (json_wrapper reg) l props tms (JObject ms)"
  by (simp add: object_assign_same)

lemma load_properties_member:
  "map_of ms n = Some j \<Longrightarrow> map_of tms n = Some tv \<Longrightarrow> l member_type tv j = Inr (x, j)
   \<Longrightarrow> load_properties (json_wrapper reg) l (reflection_impl n member_type # props) tms
         (JObject ms)
       = load_properties (json_wrapper reg) l props (object_update n x tms) (JObject ms)"
  by (simp add: object_assign_same)

lemma json_members_Nil: "json_members ct reg [] [] []"
proof -
  let ?J = "json_wrapper reg"
  have sv: "save_properties ct ?J props every (JObject pre)
              = Inr (JObject (pre @ json_entries props []))"
    if "member_props props = []" "distinct (map fst pre @ map name props)"
    for props every pre
    using that
  proof (induction props arbitrary: pre rule: member_props.induct)
    case 1 then show ?case by simp
  next
    case (2 n t props) then show ?case by simp
  next
    case (3 n props)
    from "3.prems" have fresh: "n \<notin> fst ` set pre"
      and d: "distinct (map fst (pre @ [(n, JNull)]) @ map name props)"
      and m: "member_props props = []" by auto
    from "3.IH"[OF m d] show ?case
      unfolding save_properties_placeholder[OF fresh] by simp
  qed
  have ld: "load_properties ?J l props tms (JObject ms) = Inr (tms, JObject ms)"
    if "member_props props = []"
      "\<forall>n j. (n, j) \<in> set (json_entries props []) \<longrightarrow> map_of ms n = Some j"
    for props l tms ms
    using that
  proof (induction props rule: member_props.induct)
    case 1 then show ?case by simp
  next
    case (2 n t props) then show ?case by simp
  next
    case (3 n props)
    from "3.prems" have here: "map_of ms n = Some JNull"
      and later: "\<forall>n j. (n, j) \<in> set (json_entries props []) \<longrightarrow> map_of ms n = Some j"
      and m: "member_props props = []" by auto
    from "3.IH"[OF m later] show ?case
      unfolding load_properties_placeholder[OF here] .
  qed
  show ?thesis
    unfolding json_members_def
    by (rule conjI, simp, rule exI[of _ "[]"]) (simp add: sv ld)
qed

lemma json_members_Cons:
  assumes x: "json_round_trip ct reg member_type x target"
    and xs: "json_members ct reg mps members target_members"
  shows "json_members ct reg ((n, member_type) # mps) ((n, x) # members)
           ((n, target) # target_members)"
proof -
  let ?J = "json_wrapper reg"
  from x obtain j where
    sv1: "save ct ?J member_type x JNull = Inr j"
    and ld1: "\<And>fuel. Suc (size x) \<le> fuel \<Longrightarrow> load ct ?J fuel member_type target j = Inr (x, j)"
    unfolding json_round_trip_def by blast
  from xs obtain js where
    names: "map fst members = map fst mps"
    and len: "length js = length mps"
    and sv2: "\<And>props every pre. member_props props = mps \<Longrightarrow>
               distinct (map fst pre @ map name props) \<Longrightarrow>
               (\<forall>n x. (n, x) \<in> set members \<longrightarrow> map_of every n = Some x) \<Longrightarrow>
               save_properties ct ?J props every (JObject pre)
               = Inr (JObject (pre @ json_entries props js))"
    and ld2: "\<And>props tpre fuel ms. member_props props = mps \<Longrightarrow>
               distinct (map fst tpre @ map fst mps) \<Longrightarrow>
               (\<forall>n j. (n, j) \<in> set (json_entries props js) \<longrightarrow> map_of ms n = Some j) \<Longrightarrow>
               size_list (size_prod (\<lambda>x. 0) size) members \<le> fuel \<Longrightarrow>
               load_properties ?J (load ct ?J fuel) props (tpre @ target_members) (JObject ms)
               = Inr (tpre @ members, JObject ms)"
    unfolding json_members_def by blast
  have sv: "save_properties ct ?J props every (JObject pre)
              = Inr (JObject (pre @ json_entries props (j # js)))"
    if "member_props props = (n, member_type) # mps"
      and "distinct (map fst pre @ map name props)"
      and ev: "\<forall>n' x'. (n', x') \<in> set ((n, x) # members) \<longrightarrow> map_of every n' = Some x'"
    for props every pre
    using that(1,2)
  proof (induction props arbitrary: pre rule: member_props.induct)
    case 1 then show ?case by simp
  next
    case (2 n' t' props)
    then have eq: "n' = n" "t' = member_type" "member_props props = mps" by simp_all
    from "2.prems" have fresh: "n \<notin> fst ` set pre"
      and d: "distinct (map fst (pre @ [(n, j)]) @ map name props)" by (auto simp: eq)
    from ev have here: "map_of every n = Some x"
      and later: "\<forall>n' x'. (n', x') \<in> set members \<longrightarrow> map_of every n' = Some x'" by simp_all
    from sv2[OF eq(3) d later] show ?case
      unfolding eq save_properties_member[OF fresh here sv1] by simp
  next
    case (3 n' props)
    from "3.prems" have fresh: "n' \<notin> fst ` set pre"
      and d: "distinct (map fst (pre @ [(n', JNull)]) @ map name props)"
      and m: "member_props props = (n, member_type) # mps" by auto
    from "3.IH"[OF m d] show ?case
      unfolding save_properties_placeholder[OF fresh] by simp
  qed
  have ld: "load_properties ?J (load ct ?J fuel) props (tpre @ (n, target) # target_members)
              (JObject ms)
            = Inr (tpre @ (n, x) # members, JObject ms)"
    if "member_props props = (n, member_type) # mps"
      and d: "distinct (map fst tpre @ map fst ((n, member_type) # mps))"
      and "\<forall>n' j'. (n', j') \<in> set (json_entries props (j # js)) \<longrightarrow> map_of ms n' = Some j'"
      and f: "size_list (size_prod (\<lambda>x. 0) size) ((n, x) # members) \<le> fuel"
    for props tpre fuel ms
    using that(1,3)
  proof (induction props rule: member_props.induct)
    case 1 then show ?case by simp
  next
    case (2 n' t' props)
    then have eq: "n' = n" "t' = member_type" "member_props props = mps" by simp_all
    from "2.prems" have here: "map_of ms n = Some j"
      and later: "\<forall>n' j'. (n', j') \<in> set (json_entries props js) \<longrightarrow> map_of ms n' = Some j'"
      by (auto simp: eq)
    from d have fresh: "n \<notin> fst ` set tpre" by auto
    from f have f1: "Suc (size x) \<le> fuel"
      and f2: "size_list (size_prod (\<lambda>x. 0) size) members \<le> fuel" by simp_all
    from d have d2: "distinct (map fst (tpre @ [(n, x)]) @ map fst mps)" by auto
    from ld2[OF eq(3) d2 later f2]
    have "load_properties ?J (load ct ?J fuel) props (tpre @ (n, x) # target_members) (JObject ms)
            = Inr (tpre @ (n, x) # members, JObject ms)" by simp
    then show ?case
      unfolding eq
        load_properties_member[where l = "load ct ?J fuel",
          OF here map_of_append_fresh[OF fresh, of target target_members] ld1[OF f1]]
        object_update_fresh[OF fresh] .
  next
    case (3 n' props)
    from "3.prems" have here: "map_of ms n' = Some JNull"
      and later: "\<forall>n'' j'. (n'', j') \<in> set (json_entries props (j # js)) \<longrightarrow> map_of ms n'' = Some j'"
      and m: "member_props props = (n, member_type) # mps" by auto
    from "3.IH"[OF m later] show ?case
      unfolding load_properties_placeholder[OF here] .
  qed
  show ?thesis
    unfolding json_members_def
  proof (rule conjI)
    show "map fst ((n, x) # members) = map fst ((n, member_type) # mps)" using names by simp
  next
    show "\<exists>js. length js = length ((n, member_type) # mps)
         \<and> (\<forall>props every pre. member_props props = (n, member_type) # mps \<longrightarrow>
               distinct (map fst pre @ map name props) \<longrightarrow>
               (\<forall>n' x'. (n', x') \<in> set ((n, x) # members) \<longrightarrow> map_of every n' = Some x') \<longrightarrow>
               save_properties ct ?J props every (JObject pre)
               = Inr (JObject (pre @ json_entries props js)))
         \<and> (\<forall>props tpre fuel ms. member_props props = (n, member_type) # mps \<longrightarrow>
               distinct (map fst tpre @ map fst ((n, member_type) # mps)) \<longrightarrow>
               (\<forall>n' j'. (n', j') \<in> set (json_entries props js) \<longrightarrow> map_of ms n' = Some j') \<longrightarrow>
               size_list (size_prod (\<lambda>x. 0) size) ((n, x) # members) \<le> fuel \<longrightarrow>
               load_properties ?J (load ct ?J fuel) props
                 (tpre @ (n, target) # target_members) (JObject ms)
               = Inr (tpre @ (n, x) # members, JObject ms))"
    proof (rule exI[of _ "j # js"], intro conjI allI impI)
      show "length (j # js) = length ((n, member_type) # mps)" using len by simp
    next
      fix props every and pre :: "(string \<times> json) list"
      assume "member_props props = (n, member_type) # mps"
        "distinct (map fst pre @ map name props)"
        "\<forall>n' x'. (n', x') \<in> set ((n, x) # members) \<longrightarrow> map_of every n' = Some x'"
      then show "save_properties ct ?J props every (JObject pre)
               = Inr (JObject (pre @ json_entries props (j # js)))" by (rule sv)
    next
      fix props fuel ms and tpre :: "(string \<times> val) list"
      assume "member_props props = (n, member_type) # mps"
        "distinct (map fst tpre @ map fst ((n, member_type) # mps))"
        "\<forall>n' j'. (n', j') \<in> set (json_entries props (j # js)) \<longrightarrow> map_of ms n' = Some j'"
        "size_list (size_prod (\<lambda>x. 0) size) ((n, x) # members) \<le> fuel"
      then show "load_properties ?J (load ct ?J fuel) props
                 (tpre @ (n, target) # target_members) (JObject ms)
               = Inr (tpre @ (n, x) # members, JObject ms)" by (rule ld)
    qed
  qed
qed

subsection \<open>JSON: the values\<close>

lemma json_array_of_Nil [simp]: "json_array_of [] = JNull"
  by (simp add: json_array_of_def)

lemma json_vector:
  assumes xs: "json_items ct reg E elements"
  shows "json_round_trip ct reg (TVector E) (VSeq elements) target"
proof -
  let ?J = "json_wrapper reg"
  from xs obtain js where
    len: "length js = length elements"
    and sv: "\<And>pre. save_container ct ?J E elements (length pre) (json_array_of pre)
                  = Inr (json_array_of (pre @ js))"
    and ld: "\<And>fuel acc pre post. size_list size elements \<le> fuel \<Longrightarrow>
            load_container_loop ?J (load ct ?J fuel E) (default_val ct E)
              [length pre..<length pre + length elements] acc (JArray (pre @ js @ post))
            = Inr (acc @ elements, JArray (pre @ js @ post))"
    unfolding json_items_def by blast
  show ?thesis
  proof (rule json_round_tripI[where j = "json_array_of js"])
    show "save ct ?J (TVector E) (VSeq elements) JNull = Inr (json_array_of js)"
      using sv[of "[]"] by simp
  next
    fix fuel assume "size (VSeq elements) \<le> fuel"
    then have f: "size_list size elements \<le> fuel" by simp
    show "load ct ?J (Suc fuel) (TVector E) target (json_array_of js)
            = Inr (VSeq elements, json_array_of js)"
    proof (cases "js = []")
      case True
      with len show ?thesis by (simp add: load_container_def)
    next
      case False
      with ld[OF f, of "[]" "[]" "[]"] len show ?thesis
        by (simp add: load_container_def json_array_of_def)
    qed
  qed simp
qed

lemma json_set:
  assumes xs: "json_items ct reg E elements"
    and order: "case k of ordered_unique \<Rightarrow> sorted_wrt val_less elements
                        | unordered_unique \<Rightarrow> distinct elements"
  shows "json_round_trip ct reg (TSet k E) (VSeq elements) target"
proof -
  let ?J = "json_wrapper reg"
  from xs obtain js where
    len: "length js = length elements"
    and sv: "\<And>pre. save_container ct ?J E elements (length pre) (json_array_of pre)
                  = Inr (json_array_of (pre @ js))"
    and ld: "\<And>k fuel acc pre post. size_list size elements \<le> fuel \<Longrightarrow>
            load_set_loop ?J k (load ct ?J fuel E) (default_val ct E)
              [length pre..<length pre + length elements] acc (JArray (pre @ js @ post))
            = Inr (foldl (\<lambda>c x. set_emplace k x c) acc elements, JArray (pre @ js @ post))"
    unfolding json_items_def by blast
  have same: "foldl (\<lambda>c x. set_emplace k x c) [] elements = elements"
    using order foldl_set_emplace_ordered[of "[]" elements]
      foldl_set_emplace_unordered[of "[]" elements]
    by (cases k) simp_all
  show ?thesis
  proof (rule json_round_tripI[where j = "json_array_of js"])
    show "save ct ?J (TSet k E) (VSeq elements) JNull = Inr (json_array_of js)"
      using sv[of "[]"] by simp
  next
    fix fuel assume "size (VSeq elements) \<le> fuel"
    then have f: "size_list size elements \<le> fuel" by simp
    show "load ct ?J (Suc fuel) (TSet k E) target (json_array_of js)
            = Inr (VSeq elements, json_array_of js)"
    proof (cases "js = []")
      case True
      with len show ?thesis by (simp add: load_associative_container_set_def)
    next
      case False
      with ld[OF f, of k "[]" "[]" "[]"] len same show ?thesis
        by (simp add: load_associative_container_set_def json_array_of_def)
    qed
  qed simp
qed

lemma json_fixed_value:
  assumes xs: "json_fixed ct reg E elements targets"
  shows "json_round_trip ct reg (TArray (length elements) E) (VSeq elements) (VSeq targets)"
proof -
  let ?J = "json_wrapper reg"
  from xs obtain js where
    tlen: "length targets = length elements"
    and len: "length js = length elements"
    and sv: "\<And>pre. save_container ct ?J E elements (length pre) (json_array_of pre)
                  = Inr (json_array_of (pre @ js))"
    and ld: "\<And>fuel tpre pre post. size_list size elements \<le> fuel \<Longrightarrow> length tpre = length pre \<Longrightarrow>
            load_array_loop ?J (load ct ?J fuel E)
              [length pre..<length pre + length elements] (tpre @ targets) (JArray (pre @ js @ post))
            = Inr (tpre @ elements, JArray (pre @ js @ post))"
    unfolding json_fixed_def by blast
  show ?thesis
  proof (rule json_round_tripI[where j = "json_array_of js"])
    show "save ct ?J (TArray (length elements) E) (VSeq elements) JNull = Inr (json_array_of js)"
      using sv[of "[]"] by simp
  next
    fix fuel assume "size (VSeq elements) \<le> fuel"
    then have f: "size_list size elements \<le> fuel" by simp
    show "load ct ?J (Suc fuel) (TArray (length elements) E) (VSeq targets) (json_array_of js)
            = Inr (VSeq elements, json_array_of js)"
    proof (cases "js = []")
      case True
      with len tlen show ?thesis by (simp add: load_array_def)
    next
      case False
      with ld[OF f, of "[]" "[]" "[]"] len tlen show ?thesis
        by (simp add: load_array_def json_array_of_def)
    qed
  qed simp
qed

lemma json_map:
  assumes xs: "json_pairs ct reg K V pairs"
    and order: "case k of ordered_unique \<Rightarrow> sorted_wrt val_less (map fst pairs)
                        | unordered_unique \<Rightarrow> distinct (map fst pairs)"
  shows "json_round_trip ct reg (TMap k K V) (VMap pairs) target"
proof -
  let ?J = "json_wrapper reg"
  from xs obtain js where
    len: "length js = 2 * length pairs"
    and sv: "\<And>pre. save_map ct ?J K V pairs (length pre) (json_array_of pre)
                  = Inr (json_array_of (pre @ js))"
    and ld: "\<And>k fuel acc m pre post. size_list (size_prod size size) pairs \<le> fuel \<Longrightarrow>
            length pre = 2 * m \<Longrightarrow>
            load_map_loop ?J k (load ct ?J fuel K) (load ct ?J fuel V)
              (default_val ct K) (default_val ct V)
              [m..<m + length pairs] acc (JArray (pre @ js @ post))
            = Inr (foldl (\<lambda>c kv. map_emplace k kv c) acc pairs, JArray (pre @ js @ post))"
    unfolding json_pairs_def by blast
  have same: "foldl (\<lambda>c kv. map_emplace k kv c) [] pairs = pairs"
    using order foldl_map_emplace_ordered[of "[]" pairs]
      foldl_map_emplace_unordered[of "[]" pairs]
    by (cases k) simp_all
  show ?thesis
  proof (rule json_round_tripI[where j = "json_array_of js"])
    show "save ct ?J (TMap k K V) (VMap pairs) JNull = Inr (json_array_of js)"
      using sv[of "[]"] by simp
  next
    fix fuel assume "size (VMap pairs) \<le> fuel"
    then have f: "size_list (size_prod size size) pairs \<le> fuel" by simp
    show "load ct ?J (Suc fuel) (TMap k K V) target (json_array_of js)
            = Inr (VMap pairs, json_array_of js)"
    proof (cases "js = []")
      case True
      with len show ?thesis by (simp add: load_associative_container_map_def)
    next
      case False
      have "length ([] :: json list) = 2 * 0" by simp
      from ld[OF f this, of k "[]" "[]"] False len same show ?thesis
        by (simp add: load_associative_container_map_def json_array_of_def)
    qed
  qed simp
qed

lemma json_pair:
  assumes a: "json_round_trip ct reg First first target_first"
    and b: "json_round_trip ct reg Second second target_second"
  shows "json_round_trip ct reg (TPair First Second) (VPair first second)
           (VPair target_first target_second)"
proof -
  let ?J = "json_wrapper reg"
  from a obtain j0 where
    sv1: "save ct ?J First first JNull = Inr j0"
    and ld1: "\<And>fuel. Suc (size first) \<le> fuel \<Longrightarrow> load ct ?J fuel First target_first j0 = Inr (first, j0)"
    unfolding json_round_trip_def by blast
  from b obtain j1 where
    sv2: "save ct ?J Second second JNull = Inr j1"
    and ld2: "\<And>fuel. Suc (size second) \<le> fuel \<Longrightarrow> load ct ?J fuel Second target_second j1 = Inr (second, j1)"
    unfolding json_round_trip_def by blast
  show ?thesis
  proof (rule json_round_tripI[where j = "JArray [j0, j1]"])
    show "save ct ?J (TPair First Second) (VPair first second) JNull = Inr (JArray [j0, j1])"
      by (simp add: sv1 sv2)
  next
    fix fuel assume "size (VPair first second) \<le> fuel"
    then have f1: "Suc (size first) \<le> fuel" and f2: "Suc (size second) \<le> fuel" by simp_all
    show "load ct ?J (Suc fuel) (TPair First Second) (VPair target_first target_second)
            (JArray [j0, j1])
          = Inr (VPair first second, JArray [j0, j1])"
      by (simp add: load_pair_def ld1[OF f1] ld2[OF f2])
  qed simp
qed

lemma json_tuple_value:
  assumes xs: "json_tuple ct reg Ts elements targets"
  shows "json_round_trip ct reg (TTuple Ts) (VTuple elements) (VTuple targets)"
proof -
  let ?J = "json_wrapper reg"
  from xs obtain js where
    len: "length js = length elements"
    and sv: "\<And>pre. save_tuple_impl ct ?J Ts elements (length pre) (json_array_of pre)
                  = Inr (json_array_of (pre @ js))"
    and ld: "\<And>fuel pre post. size_list size elements \<le> fuel \<Longrightarrow>
            load_tuple_impl ?J (map (load ct ?J fuel) Ts) targets (length pre)
              (JArray (pre @ js @ post))
            = Inr (elements, JArray (pre @ js @ post))"
    and shape: "length Ts = length elements"
    unfolding json_tuple_def by blast
  show ?thesis
  proof (rule json_round_tripI[where j = "json_array_of js"])
    show "save ct ?J (TTuple Ts) (VTuple elements) JNull = Inr (json_array_of js)"
      using sv[of "[]"] by simp
  next
    fix fuel assume "size (VTuple elements) \<le> fuel"
    then have f: "size_list size elements \<le> fuel" by simp
    show "load ct ?J (Suc fuel) (TTuple Ts) (VTuple targets) (json_array_of js)
            = Inr (VTuple elements, json_array_of js)"
    proof (cases "js = []")
      case True
      with len have e: "elements = []" by simp
      with shape have t: "Ts = []" by simp
      from ld[OF f, of "[]" "[]"] True
      have "load_tuple_impl ?J (map (load ct ?J fuel) Ts) targets 0 (JArray []) = Inr (elements, JArray [])"
        by simp
      with e t have "targets = []" by (cases targets) simp_all
      with e t True show ?thesis by (simp add: load_tuple_def)
    next
      case False
      with ld[OF f, of "[]" "[]"] len show ?thesis
        by (simp add: load_tuple_def json_array_of_def)
    qed
  qed simp
qed

lemma json_none_optional: "json_round_trip ct reg (TOptional E) (VOptional None) target"
proof (rule json_round_tripI[where j = "JArray [JBool False]"])
  fix fuel assume "size (VOptional None) \<le> fuel"
  then obtain f where "fuel = Suc f" by (cases fuel) auto
  then show "load ct (json_wrapper reg) (Suc fuel) (TOptional E) target (JArray [JBool False])
               = Inr (VOptional None, JArray [JBool False])"
    by (simp add: load_optional_def)
qed simp_all

lemma json_some_optional:
  assumes "json_round_trip ct reg E x (default_val ct E)"
  shows "json_round_trip ct reg (TOptional E) (VOptional (Some x)) target"
proof -
  let ?J = "json_wrapper reg"
  from assms obtain j where
    sv: "save ct ?J E x JNull = Inr j"
    and ld: "\<And>fuel. Suc (size x) \<le> fuel \<Longrightarrow> load ct ?J fuel E (default_val ct E) j = Inr (x, j)"
    unfolding json_round_trip_def by blast
  show ?thesis
  proof (rule json_round_tripI[where j = "JArray [JBool True, j]"])
    show "save ct ?J (TOptional E) (VOptional (Some x)) JNull = Inr (JArray [JBool True, j])"
      by (simp add: sv)
  next
    fix fuel assume "size (VOptional (Some x)) \<le> fuel"
    then have f: "Suc (size x) \<le> fuel" by simp
    then obtain f' where f': "fuel = Suc f'" by (cases fuel) auto
    have b: "load ct ?J fuel TBool (VBool False) (JBool True) = Inr (VBool True, JBool True)"
      by (simp add: f')
    show "load ct ?J (Suc fuel) (TOptional E) target (JArray [JBool True, j])
               = Inr (VOptional (Some x), JArray [JBool True, j])"
      by (simp add: load_optional_def b ld[OF f])
  qed simp
qed

lemma json_variant:
  assumes n: "length Ts \<le> 255" and i: "variant_index < length Ts"
    and x: "json_round_trip ct reg (Ts ! variant_index) x
              (case target of
                 VVariant held y \<Rightarrow>
                   if held = variant_index then y else default_val ct (Ts ! variant_index)
               | _ \<Rightarrow> default_val ct (Ts ! variant_index))"
  shows "json_round_trip ct reg (TVariant Ts) (VVariant variant_index x) target"
proof -
  let ?J = "json_wrapper reg"
  let ?t = "case target of
                 VVariant held y \<Rightarrow>
                   if held = variant_index then y else default_val ct (Ts ! variant_index)
               | _ \<Rightarrow> default_val ct (Ts ! variant_index)"
  let ?j = "\<lambda>j. JObject [(INDEX_NAME, JInt (int variant_index)), (VALUE_NAME, j)]"
  from n i have small: "variant_index < 256" by simp
  from x obtain j where
    sv: "save ct ?J (Ts ! variant_index) x JNull = Inr j"
    and ld: "\<And>fuel. Suc (size x) \<le> fuel \<Longrightarrow> load ct ?J fuel (Ts ! variant_index) ?t j = Inr (x, j)"
    unfolding json_round_trip_def by blast
  have u: "uint (of_nat variant_index :: 32 word) = int variant_index"
    using unat_index[OF small] by (simp add: uint_nat)
  have w: "unat (word_of_int (int variant_index) :: 32 word) = variant_index"
    using unat_index[OF small] by simp
  show ?thesis
  proof (rule json_round_tripI[where j = "?j j"])
    show "save ct ?J (TVariant Ts) (VVariant variant_index x) JNull = Inr (?j j)"
      using n i
      by (simp add: json_push_index_def narrow_index[OF small] u sv INDEX_NAME_def VALUE_NAME_def)
  next
    fix fuel assume "size (VVariant variant_index x) \<le> fuel"
    then have f: "Suc (size x) \<le> fuel" by simp
    show "load ct ?J (Suc fuel) (TVariant Ts) target (?j j) = Inr (VVariant variant_index x, ?j j)"
      using n i ld[OF f]
      by (simp add: load_variant_def json_pop_index_def w unat_index[OF small]
               INDEX_NAME_def VALUE_NAME_def cong: val.case_cong if_cong)
  qed simp
qed

lemma json_unique:
  assumes "json_round_trip ct reg E x (default_val ct E)"
  shows "json_round_trip ct reg (TUnique E) (VPtr (Some x)) target"
proof -
  let ?J = "json_wrapper reg"
  from assms obtain j where
    sv: "save ct ?J E x JNull = Inr j"
    and ld: "\<And>fuel. Suc (size x) \<le> fuel \<Longrightarrow> load ct ?J fuel E (default_val ct E) j = Inr (x, j)"
    unfolding json_round_trip_def by blast
  show ?thesis
  proof (rule json_round_tripI[where j = j])
    show "save ct ?J (TUnique E) (VPtr (Some x)) JNull = Inr j" by (simp add: sv)
  next
    fix fuel assume "size (VPtr (Some x)) \<le> fuel"
    then have f: "Suc (size x) \<le> fuel" by simp
    show "load ct ?J (Suc fuel) (TUnique E) target j = Inr (VPtr (Some x), j)"
      by (simp add: load_unique_def ld[OF f])
  qed simp
qed

lemma json_shared_null: "json_round_trip ct reg (TShared E) (VPtr None) target"
  by (rule json_round_tripI[where j = "JObject [(CLASS_NAME, JString EMPTY_NAME)]"])
     (simp_all add: json_push_class_name_def json_pop_class_name_def load_shared_def)

lemma json_shared:
  assumes adm: "admissible fmt ct reg (TClass c) x (default_val ct (TClass c))"
    and reg: "case map_of reg c of None \<Rightarrow> True | Some R \<Rightarrow> R = TClass c"
    and x: "json_round_trip ct reg (TClass c) x (default_val ct (TClass c))"
  shows "json_round_trip ct reg (TShared (TClass c)) (VPtr (Some x)) target"
proof -
  let ?J = "json_wrapper reg"
  from adm obtain members props where
    obj: "x = VObject c members" and props: "properties ct c = Some props"
    and c: "c \<noteq> EMPTY_NAME"
    by (rule admissible_object)
  from x obtain j es where
    j: "j = JObject ((CLASS_NAME, JString c) # es)"
    and sv: "save ct ?J (TClass c) x (JObject [(CLASS_NAME, JString c)]) = Inr j"
    and ld: "\<And>fuel. Suc (size x) \<le> fuel \<Longrightarrow>
               load ct ?J fuel (TClass c) (default_val ct (TClass c)) j = Inr (x, j)"
    unfolding json_round_trip_def by blast
  have nm: "polymorphic_type_name ct (TClass c) x = c" by (simp add: obj)
  show ?thesis
  proof (rule json_round_tripI[where j = j])
    show "save ct ?J (TShared (TClass c)) (VPtr (Some x)) JNull = Inr j"
      using props sv by (simp add: nm json_push_class_name_def del: polymorphic_type_name.simps)
  next
    fix fuel assume "size (VPtr (Some x)) \<le> fuel"
    then have f: "Suc (size x) \<le> fuel" by simp
    have pop: "json_pop_class_name j = Inr (c, j)"
      by (simp add: j json_pop_class_name_def)
    have push: "json_push_class_name c j = Inr j"
      by (simp add: j json_push_class_name_def)
    show "load ct ?J (Suc fuel) (TShared (TClass c)) target j = Inr (VPtr (Some x), j)"
    proof (cases "map_of reg c")
      case None
      then show ?thesis
        using props c by (simp add: load_shared_def pop push ld[OF f] del: default_val.simps)
    next
      case (Some R)
      with reg have R: "R = TClass c" by simp
      show ?thesis
        using Some R props c by (simp add: load_shared_def pop ld[OF f] del: default_val.simps)
    qed
  qed simp
qed

lemma json_object:
  assumes adm: "admissible json_format ct reg (TClass c) x target"
    and ms: "\<And>props members target_members.
               properties ct c = Some props \<Longrightarrow> x = VObject c members
               \<Longrightarrow> target = VObject c target_members
               \<Longrightarrow> json_members ct reg (member_props props) members target_members"
  shows "json_round_trip ct reg (TClass c) x target"
proof -
  let ?J = "json_wrapper reg"
  from adm obtain members props d target_members where
    obj: "x = VObject c members" and tgt: "target = VObject c target_members"
    and props: "properties ct c = Some props" and d: "lookup_class ct c = Some d"
    and c: "c \<noteq> EMPTY_NAME" and dist: "distinct (map name props)"
    and cls: "CLASS_NAME \<notin> set (map name props)"
    and init: "initialize d members = members"
    by (rule admissible_object) simp
  from ms[OF props obj tgt] obtain js where
    names: "map fst members = map fst (member_props props)"
    and len: "length js = length (member_props props)"
    and sv: "\<And>every pre. distinct (map fst pre @ map name props) \<Longrightarrow>
               (\<forall>n x. (n, x) \<in> set members \<longrightarrow> map_of every n = Some x) \<Longrightarrow>
               save_properties ct ?J props every (JObject pre)
               = Inr (JObject (pre @ json_entries props js))"
    and ld: "\<And>tpre fuel ms. distinct (map fst tpre @ map fst (member_props props)) \<Longrightarrow>
               (\<forall>n j. (n, j) \<in> set (json_entries props js) \<longrightarrow> map_of ms n = Some j) \<Longrightarrow>
               size_list (size_prod (\<lambda>x. 0) size) members \<le> fuel \<Longrightarrow>
               load_properties ?J (load ct ?J fuel) props (tpre @ target_members) (JObject ms)
               = Inr (tpre @ members, JObject ms)"
    unfolding json_members_def by blast
  let ?head = "[(CLASS_NAME, JString c)]"
  let ?ms = "(CLASS_NAME, JString c) # json_entries props js"
  have dm: "distinct (map fst (member_props props))" using dist by (rule distinct_member_props)
  then have "distinct (map fst members)" using names by simp
  then have every: "\<forall>n x. (n, x) \<in> set members \<longrightarrow> map_of members n = Some x" by simp
  have dh: "distinct (map fst ?head @ map name props)" using dist cls by simp
  from sv[OF dh every]
  have body: "save_properties ct ?J props members (JObject ?head) = Inr (JObject ?ms)" by simp
  have "distinct (map fst ?ms)" using dist cls json_entries_names[OF len] by simp
  then have found: "\<forall>n j. (n, j) \<in> set (json_entries props js) \<longrightarrow> map_of ?ms n = Some j"
    by (metis list.set_intros(2) map_of_is_SomeI)
  have ne: "props \<noteq> []" using props by (rule properties_nonempty)
  have nm: "polymorphic_type_name ct (TClass c) x = c" by (simp add: obj)
  have sv_any: "save ct ?J (TClass c) x a = Inr (JObject ?ms)"
    if "json_push_class_name c a = Inr (JObject ?head)" for a
    using props that body nm by (simp add: obj del: polymorphic_type_name.simps)
  show ?thesis
    unfolding json_round_trip_def
  proof (rule exI[of _ "JObject ?ms"], intro conjI allI impI)
    show "save ct ?J (TClass c) x JNull = Inr (JObject ?ms)"
      by (rule sv_any) (simp add: json_push_class_name_def)
  next
    fix c' assume "TClass c = TClass c'"
    then show "\<exists>es. JObject ?ms = JObject ((CLASS_NAME, JString c') # es)" by simp
  next
    fix c' assume "TClass c = TClass c'"
    then have "c' = c" by simp
    then show "save ct ?J (TClass c) x (JObject [(CLASS_NAME, JString c')]) = Inr (JObject ?ms)"
      by (intro sv_any) (simp add: json_push_class_name_def)
  next
    fix fuel assume "Suc (size x) \<le> fuel"
    then obtain f where fuel: "fuel = Suc f"
      and f: "size_list (size_prod (\<lambda>x. 0) size) members \<le> f"
      by (cases fuel) (auto simp: obj)
    from dm have "distinct (map fst [] @ map fst (member_props props))" by simp
    from ld[OF this found f]
    have e: "load_properties ?J (load ct ?J f) props target_members (JObject ?ms)
            = Inr (members, JObject ?ms)" by simp
    have pop: "json_pop_class_name (JObject ?ms) = Inr (c, JObject ?ms)"
      by (simp add: json_pop_class_name_def)
    show "load ct ?J fuel (TClass c) target (JObject ?ms) = Inr (x, JObject ?ms)"
      using props d c ne init
      by (simp add: fuel load_object_def obj tgt pop e)
  qed
qed

lemma json_admissible:
  "fmt = json_format \<longrightarrow> admissible fmt ct reg T x target
     \<longrightarrow> json_round_trip ct reg T x target"
  "fmt = json_format \<longrightarrow> admissible_items fmt ct reg E elements
     \<longrightarrow> json_items ct reg E elements"
  "fmt = json_format \<longrightarrow> admissible_array fmt ct reg E' elements' targets'
     \<longrightarrow> json_fixed ct reg E' elements' targets'"
  "fmt = json_format \<longrightarrow> admissible_pairs fmt ct reg K V pairs
     \<longrightarrow> json_pairs ct reg K V pairs"
  "fmt = json_format \<longrightarrow> admissible_tuple fmt ct reg Ts items targets
     \<longrightarrow> json_tuple ct reg Ts items targets"
  "fmt = json_format \<longrightarrow> admissible_members fmt ct reg mps members target_members
     \<longrightarrow> json_members ct reg mps members target_members"
proof (induction fmt ct reg T x target and fmt ct reg E elements
         and fmt ct reg E' elements' targets' and fmt ct reg K V pairs
         and fmt ct reg Ts items targets and fmt ct reg mps members target_members
       rule: admissible_admissible_items_admissible_array_admissible_pairs_admissible_tuple_admissible_members.induct)
  case (1 fmt ct reg T i target)
  then show ?case by (simp add: scalar_int_json)
next
  case (2 fmt ct reg T b target)
  then show ?case by (simp add: scalar_bool_json)
next
  case (3 fmt ct reg T s target)
  then show ?case by (simp add: scalar_string_json)
next
  case (5 fmt ct reg T target)
  then show ?case by (simp add: scalar_mono_json)
next
  case (6 fmt ct reg T items target)
  then show ?case
    by (auto split: ty.splits val.splits intro: json_vector json_set json_fixed_value)
next
  case (7 fmt ct reg T pairs target)
  then show ?case by (auto split: ty.splits intro: json_map)
next
  case (8 fmt ct reg T first second target)
  then show ?case by (auto split: ty.splits val.splits intro: json_pair)
next
  case (9 fmt ct reg T items target)
  then show ?case by (auto split: ty.splits val.splits intro: json_tuple_value)
next
  case (10 fmt ct reg T target)
  then show ?case by (auto split: ty.splits intro: json_none_optional)
next
  case (11 fmt ct reg T x target)
  then show ?case by (auto split: ty.splits intro: json_some_optional)
next
  case (12 fmt ct reg T variant_index x target)
  then show ?case by (auto split: ty.splits intro!: json_variant)
next
  case (14 fmt ct reg T target)
  then show ?case by (auto split: ty.splits intro: json_shared_null)
next
  case (15 fmt ct reg T x target)
  then show ?case
    by (auto split: ty.splits simp del: default_val.simps intro: json_unique json_shared)
next
  case (16 fmt ct reg T dyn members target)
  show ?case
  proof (intro impI)
    assume b: "fmt = json_format"
      and adm: "admissible fmt ct reg T (VObject dyn members) target"
    then obtain c where T: "T = TClass c" by (cases T) simp_all
    show "json_round_trip ct reg T (VObject dyn members) target"
      unfolding T
    proof (rule json_object)
      show "admissible json_format ct reg (TClass c) (VObject dyn members) target"
        using adm T b by simp
    next
      fix props members' target_members
      assume p: "properties ct c = Some props" and o: "VObject dyn members = VObject c members'"
        and t: "target = VObject c target_members"
      from adm T p t obtain d where d: "lookup_class ct c = Some d"
        by (auto split: option.splits)
      from adm T p t d o have "admissible_members fmt ct reg (member_props props) members target_members"
        by simp
      with 16[OF T refl p refl d t] b o
      show "json_members ct reg (member_props props) members' target_members" by simp
    qed
  qed
next
  case (17 fmt ct reg E)
  then show ?case by (simp add: json_items_Nil)
next
  case (18 fmt ct reg E x items)
  then show ?case by (simp add: json_items_Cons)
next
  case (19 fmt ct reg E)
  then show ?case by (simp add: json_fixed_Nil)
next
  case (20 fmt ct reg E x items target targets)
  then show ?case by (simp add: json_fixed_Cons)
next
  case (22 fmt ct reg K V)
  then show ?case by (simp add: json_pairs_Nil)
next
  case (23 fmt ct reg K V key val pairs)
  then show ?case by (auto intro: json_pairs_Cons)
next
  case (24 fmt ct reg)
  then show ?case by (simp add: json_tuple_Nil)
next
  case (25 fmt ct reg T Ts x items target targets)
  then show ?case by (simp add: json_tuple_Cons)
next
  case (27 fmt ct reg)
  then show ?case by (simp add: json_members_Nil)
next
  case (28 fmt ct reg n member_type props m x members target_m target target_members)
  then show ?case by (auto intro: json_members_Cons)
qed simp_all

subsection \<open>XML\<close>

lemma xml_scalar_round_trip:
  assumes "xml_scalar T x"
  shows "\<exists>archive. save ct (xml_wrapper reg) T x xml_buffer = Inr archive
            \<and> load ct (xml_wrapper reg) (Suc fuel) T target archive = Inr (x, archive)"
  using assms
  by (cases "(T, x)" rule: xml_scalar.cases)
     (simp_all add: xml_buffer_def text_set_def text_data_def node_at_def append_node_def
        text_get_def)

text \<open>
  Beyond the scalars, the XML shapes of the repository's tests are restored: a sequence of
  numbers and an object with scalar members.
\<close>

lemma xml_flat_sequence_is_restored:
  "(case save test_classes (xml_wrapper []) (TVector TInt)
           (VSeq [VInt 1, VInt 2, VInt 4, VInt 6, VInt 8]) xml_buffer of
      Inl e \<Rightarrow> Inl e
    | Inr archive \<Rightarrow>
        map_sum id fst (load test_classes (xml_wrapper []) 3 (TVector TInt) (VSeq []) archive))
   = Inr (VSeq [VInt 1, VInt 2, VInt 4, VInt 6, VInt 8])"
  by code_simp

lemma xml_flat_object_is_restored:
  "(case save test_classes (xml_wrapper []) (TClass ''test::test_derived_serialization'')
           (VObject ''test::test_derived_serialization''
              [(''d_'', VInt 6), (''n_'', VString ''me'')])
           xml_buffer of
      Inl e \<Rightarrow> Inl e
    | Inr archive \<Rightarrow>
        map_sum id fst
          (load test_classes (xml_wrapper []) 3 (TClass ''test::test_derived_serialization'')
             (VObject ''test::test_derived_serialization''
                [(''d_'', VInt 0), (''n_'', VString [])])
             archive))
   = Inr (VObject ''test::test_derived_serialization''
            [(''d_'', VInt 6), (''n_'', VString ''me'')])"
  by code_simp

text \<open>
  In XML a sequence inside a sequence is not restored: every \<^verbatim>\<open>get\<close> of the XML wrapper
  returns a reference to the one \<^verbatim>\<open>cached_node\<close>, so the reference a loop holds to its
  own node moves when an element is referenced. \<^verbatim>\<open>{{1, 2, 3}}\<close> is saved and loads as
  \<^verbatim>\<open>{{1, 2, 0}}\<close>.
\<close>

lemma xml_nested_sequence_is_not_restored:
  "(case save test_classes (xml_wrapper []) (TVector (TVector TInt))
           (VSeq [VSeq [VInt 1, VInt 2, VInt 3]]) xml_buffer of
      Inl e \<Rightarrow> Inl e
    | Inr archive \<Rightarrow>
        map_sum id fst
          (load test_classes (xml_wrapper []) 3 (TVector (TVector TInt)) (VSeq []) archive))
   = Inr (VSeq [VSeq [VInt 1, VInt 2, VInt 0]])"
  by code_simp

section \<open>The round-trip law\<close>




section \<open>A derived object behind a handle of its base\<close>

text \<open>
  C2 (the code departs from the claim). \<^verbatim>\<open>test_derived_serialization\<close> is registered and
  derives from the reflectable \<^verbatim>\<open>test_serialization\<close>. A
  \<^verbatim>\<open>std::shared_ptr<test_serialization>\<close> that points to a derived object with \<open>d_ = 6\<close>
  and \<open>n_ = "me"\<close> is saved through the descriptor of the static type: the archive gets the
  name of the derived class and the member \<open>d_\<close> only. Loading it dispatches through the
  registry to the derived class, whose member \<open>n_\<close> the archive lacks: the JSON load ends
  in a \<^verbatim>\<open>type_error\<close> at the null value found there.
\<close>

theorem derived_behind_base_handle_loses_members:
  "save test_classes
       (json_wrapper [(''test::test_derived_serialization'',
                       TClass ''test::test_derived_serialization'')])
       (TShared (TClass ''test::test_serialization''))
       (VPtr (Some (VObject ''test::test_derived_serialization''
                      [(''d_'', VInt 6), (''n_'', VString ''me'')])))
       JNull
     = Inr (JObject [(''Class'', JString ''test::test_derived_serialization''), (''d_'', JInt 6)])
   \<and> load test_classes
       (json_wrapper [(''test::test_derived_serialization'',
                       TClass ''test::test_derived_serialization'')])
       3 (TShared (TClass ''test::test_serialization'')) (VPtr None)
       (JObject [(''Class'', JString ''test::test_derived_serialization''), (''d_'', JInt 6)])
     = Inl backing_error"
  by code_simp

section \<open>Loading a map from an odd count\<close>

text \<open>
  C3 (the code departs from the claim). Loading a \<^verbatim>\<open>std::map<int, int>\<close> from the JSON
  array \<^verbatim>\<open>[1, 1, 2]\<close>, whose size 3 is odd, ends in no \<open>size_mismatch\<close> failure: the
  check \<^verbatim>\<open>SERIALIZATION_CHECK(size % 2 == 0, size_mismatch, ...)\<close> expands to a statement
  that does nothing, the loop runs \<open>3 / 2 = 1\<close> times, and the call returns the map
  \<open>{1 \<mapsto> 1}\<close>.
\<close>

theorem load_map_odd_size_returns:
  "load test_classes (json_wrapper []) 2 (TMap ordered_unique TInt TInt) (VMap [])
       (JArray [JInt 1, JInt 1, JInt 2])
     = Inr (VMap [(VInt 1, VInt 1)], JArray [JInt 1, JInt 1, JInt 2])
   \<and> SERIALIZATION_CHECK (json_size (JArray [JInt 1, JInt 1, JInt 2]) mod 2 = 0) size_mismatch
     = Inr ()"
  by code_simp

section \<open>Loading a variant whose tag is out of range\<close>

text \<open>
  C4 (the code departs from the claim). Loading a \<^verbatim>\<open>std::variant<int, bool,
  std::string>\<close> from the JSON object \<^verbatim>\<open>{"Index": 3, "Value": 5}\<close>, whose tag 3 is not
  below the arity 3, ends in no \<open>invalid_index\<close> failure: the check
  \<^verbatim>\<open>SERIALIZATION_CHECK(index < num_types, invalid_index, ...)\<close> does nothing, and
  \<^verbatim>\<open>loaders[index]\<close> reads past the end of the table.
\<close>

theorem load_variant_tag_out_of_range:
  "load test_classes (json_wrapper []) 2 (TVariant [TInt, TBool, TString]) (VVariant 0 (VInt 0))
       (JObject [(''Index'', JInt 3), (''Value'', JInt 5)])
     = Inl undefined_behaviour
   \<and> SERIALIZATION_CHECK (unat (3 :: 32 word) < length [TInt, TBool, TString]) invalid_index
     = Inr ()"
  by code_simp

section \<open>Recursion depth\<close>

lemma poly_node: "\<not> is_polymorphic [node] (TClass ''node'')"
  by (simp add: node_def)

lemma look_node: "lookup_class [node] ''node'' = Some node"
  by (simp add: node_def)

lemma props_node:
  "properties [node] ''node'' = Some [reflection_impl ''next'' (TShared (TClass ''node''))]"
  by (simp add: node_def GET_ARG_COUNT_def REFLECTION_def)

lemmas node_simps = poly_node look_node props_node

lemma save_chain:
  "save [node] (json_wrapper reg) (TShared (TClass ''node'')) (chain n) JNull
     = Inr (chain_json n)"
proof (induction n)
  case 0
  show ?case
    by (simp add: json_push_class_name_def EMPTY_NAME_def CLASS_NAME_def)
next
  case (Suc n)
  then show ?case
    by (simp add: node_simps json_push_class_name_def CLASS_NAME_def
        del: properties.simps is_polymorphic.simps lookup_class.simps)
qed

text \<open>Each node of the list takes two nested calls of \<^verbatim>\<open>load\<close> (the handle, the object),
  the null handle at the end one.\<close>

lemma load_chain:
  "2 * n + 1 \<le> fuel \<Longrightarrow>
   load [node] (json_wrapper []) fuel (TShared (TClass ''node'')) obj (chain_json n)
     = Inr (chain n, chain_json n)"
proof (induction n arbitrary: fuel obj)
  case 0
  then obtain f where "fuel = Suc f" by (cases fuel) auto
  then show ?case
    by (simp add: load_shared_def json_pop_class_name_def EMPTY_NAME_def CLASS_NAME_def)
next
  case (Suc n)
  then obtain f where f: "fuel = Suc (Suc f)" "2 * n + 1 \<le> f"
    by (cases fuel; cases "fuel - 1") auto
  have init: "initialize node = (\<lambda>m. m)" by (simp add: node_def)
  have dm: "default_members node = [(''next'', VPtr None)]" by (simp add: node_def)
  from Suc.IH[OF f(2)] show ?case
    unfolding f
    by (simp add: load_shared_def load_object_def node_simps init dm
        json_pop_class_name_def json_push_class_name_def EMPTY_NAME_def CLASS_NAME_def
        del: properties.simps is_polymorphic.simps lookup_class.simps)
qed

lemma load_chain_out_of_fuel:
  "fuel \<le> 2 * n \<Longrightarrow>
   load [node] (json_wrapper []) fuel (TShared (TClass ''node'')) obj (chain_json n)
     = Inl out_of_fuel"
proof (induction n arbitrary: fuel obj)
  case 0
  then show ?case by simp
next
  case (Suc n)
  have dm: "default_members node = [(''next'', VPtr None)]" by (simp add: node_def)
  show ?case
  proof (cases fuel)
    case 0
    then show ?thesis by simp
  next
    case (Suc f)
    show ?thesis
    proof (cases f)
      case 0
      with Suc show ?thesis
        by (simp add: load_shared_def json_pop_class_name_def json_push_class_name_def
            EMPTY_NAME_def CLASS_NAME_def node_simps
            del: properties.simps is_polymorphic.simps lookup_class.simps)
    next
      case (Suc f')
      with \<open>fuel = Suc f\<close> Suc.prems have "f' \<le> 2 * n" by simp
      from Suc.IH[OF this] show ?thesis
        unfolding \<open>fuel = Suc f\<close> \<open>f = Suc f'\<close>
        by (simp add: load_shared_def load_object_def node_simps dm
            json_pop_class_name_def json_push_class_name_def EMPTY_NAME_def CLASS_NAME_def
            del: properties.simps is_polymorphic.simps lookup_class.simps)
    qed
  qed
qed

text \<open>
  C5 (the code departs from the claim). A list of 1001 nodes behind shared handles is saved
  to JSON without any failure, and loaded back without any failure, although the calls of
  \<^verbatim>\<open>load\<close> nest deeper than 1000 (a budget of 1000 nested calls does not suffice, one of
  2003 does). No traversal counts its depth: \<^verbatim>\<open>serialization_context\<close> is used by nothing.
  Were its guard entered at depth 1000, it would not raise a \<open>recursion_limit\<close>
  error either, but execute \<^verbatim>\<open>throw;\<close> with no exception in flight.
\<close>

theorem deep_traversal_meets_no_recursion_limit:
  "save [node] (json_wrapper []) (TShared (TClass ''node'')) (chain 1001) JNull
     = Inr (chain_json 1001)
   \<and> load [node] (json_wrapper []) 2003 (TShared (TClass ''node'')) (VPtr None) (chain_json 1001)
     = Inr (chain 1001, chain_json 1001)
   \<and> load [node] (json_wrapper []) 1000 (TShared (TClass ''node'')) (VPtr None) (chain_json 1001)
     = Inl out_of_fuel
   \<and> enter \<lparr>depth = 1000\<rparr> = Inl terminate"
  using save_chain [of "[]" 1001] load_chain [of 1001 2003 "VPtr None"]
    load_chain_out_of_fuel [of 1000 1001 "VPtr None"]
  by (simp add: enter_def max_depth_def)

section \<open>Null shared handles\<close>

text \<open>
  C6. In each format, saving a null shared handle into an empty archive (a null JSON
  value, an element with no attribute, an empty stream) writes the class name
  \<^verbatim>\<open>"null object!"\<close> and nothing else; loading a shared handle from that archive gives the
  null handle, whatever the element type, the class table, the registry and the handle
  loaded into.
\<close>

theorem null_shared_handle_round_trip:
  "save ct (json_wrapper reg) (TShared T) (VPtr None) JNull
       = Inr (JObject [(''Class'', JString ''null object!'')])
   \<and> load ct (json_wrapper reg) (Suc fuel) (TShared T) obj
         (JObject [(''Class'', JString ''null object!'')])
       = Inr (VPtr None, JObject [(''Class'', JString ''null object!'')])
   \<and> save ct (xml_wrapper reg) (TShared T) (VPtr None) xml_buffer
       = Inr (node_variable (Some 0),
              \<lparr>nodes = [\<lparr>node_type = node_element, node_name = ''test'', node_value = None,
                         attributes = [(''class'', xml_chars ''null object!'')],
                         children = [], parent = None\<rparr>],
               cached_node = None\<rparr>)
   \<and> load ct (xml_wrapper reg) (Suc fuel) (TShared T) obj
         (node_variable (Some 0),
          \<lparr>nodes = [\<lparr>node_type = node_element, node_name = ''test'', node_value = None,
                     attributes = [(''class'', xml_chars ''null object!'')],
                     children = [], parent = None\<rparr>],
           cached_node = None\<rparr>)
       = Inr (VPtr None,
              node_variable (Some 0),
              \<lparr>nodes = [\<lparr>node_type = node_element, node_name = ''test'', node_value = None,
                         attributes = [(''class'', xml_chars ''null object!'')],
                         children = [], parent = None\<rparr>],
               cached_node = None\<rparr>)
   \<and> save ct (binary_wrapper sc reg) (TShared T) (VPtr None) []
       = Inr [item_string ''null object!'']
   \<and> load ct (binary_wrapper sc reg) (Suc fuel) (TShared T) obj [item_string ''null object!'']
       = Inr (VPtr None, [])"
  by (simp add: json_wrapper_def json_push_class_name_def json_pop_class_name_def
      xml_wrapper_def xml_push_class_name_def xml_pop_class_name_def xml_buffer_def
      append_attribute_def node_at_def attribute_def c_str_def
      binary_wrapper_def stream_insert_def binary_pop_class_name_def
      EMPTY_NAME_def CLASS_NAME_def load_shared_def)

section \<open>Descriptors of derived classes\<close>

lemma MAKE_T_ARG_LIST_length:
  "args \<noteq> [] \<Longrightarrow> length args \<le> 100 \<Longrightarrow>
   MAKE_T_ARG_LIST (length args) op args = Some (map op args)"
proof (induction args)
  case Nil
  then show ?case by simp
next
  case (Cons a as)
  show ?case
  proof (cases as)
    case Nil
    then show ?thesis by simp
  next
    case (Cons b bs)
    with Cons.prems Cons.IH show ?thesis by simp
  qed
qed

lemma properties_skip:
  "T \<notin> cname ` set later \<Longrightarrow> properties (later @ ds) T = properties ds T"
  by (induction later) auto

text \<open>
  C7. A class \<open>T\<close> declared with \<^verbatim>\<open>SERIALIZATION_MACRO_DERIVED(T, B, a1, ..., an)\<close>
  (between 1 and 100 own members), whose parent \<open>B\<close> is a reflectable class declared
  before it, has as descriptor the descriptor of \<open>B\<close> followed by the entries of
  \<open>a1, ..., an\<close> in the order written: parent members first, then the child's, each in
  declaration order.
\<close>

theorem derived_descriptor_is_parent_then_own:
  assumes "distinct (map cname (later @ d # earlier))"
    and "cname d = T"
    and "macro d = SERIALIZATION_MACRO_DERIVED B args"
    and "args \<noteq> []" and "length args \<le> 100"
    and "properties earlier B = Some parent_properties"
  shows "properties (later @ d # earlier) T = Some (parent_properties @ map REFLECTION args)
       \<and> properties (later @ d # earlier) B = Some parent_properties"
proof -
  from assms(1,2) have T_later: "T \<notin> cname ` set later"
    by auto
  have own: "MAKE_T_ARG_LIST (GET_ARG_COUNT args) REFLECTION args = Some (map REFLECTION args)"
    unfolding GET_ARG_COUNT_def using assms(4,5) by (rule MAKE_T_ARG_LIST_length)
  have "properties (later @ d # earlier) T = properties (d # earlier) T"
    using T_later by (rule properties_skip)
  also have "\<dots> = Some (parent_properties @ map REFLECTION args)"
    using assms(2,3,6) own by simp
  finally have first: "properties (later @ d # earlier) T
      = Some (parent_properties @ map REFLECTION args)" .
  have "B \<in> cname ` set earlier"
  proof (rule ccontr)
    assume "B \<notin> cname ` set earlier"
    then have "properties earlier B = None"
      by (induction earlier) auto
    with assms(6) show False by simp
  qed
  with assms(1) have B_later: "B \<notin> cname ` set (later @ [d])"
    by (auto simp: image_iff)
  have "properties (later @ d # earlier) B = properties ((later @ [d]) @ earlier) B"
    by simp
  also have "\<dots> = properties earlier B"
    using B_later by (rule properties_skip)
  finally show ?thesis using first assms(6) by simp
qed

theorem derived_descriptor_witness:
  "properties test_classes ''test::test_derived_serialization''
     = Some [reflection_impl ''d_'' TInt, reflection_impl ''n_'' TString]
   \<and> properties test_classes ''test::test_serialization'' = Some [reflection_impl ''d_'' TInt]"
  using derived_descriptor_is_parent_then_own
    [of "[]" test_derived_serialization "[test_serialization]"
        "''test::test_derived_serialization''" "''test::test_serialization''"
        "[(''n_'', TString)]" "[reflection_impl ''d_'' TInt]"]
  by (simp add: test_classes_def test_derived_serialization_def test_serialization_def
      GET_ARG_COUNT_def REFLECTION_def)

section \<open>The \<^verbatim>\<open>initialize\<close> hook\<close>

lemma properties_with_initialize [simp]:
  "properties (with_initialize h ct) T = properties ct T"
  by (induction ct T rule: properties.induct)
     (auto simp: with_initialize_def split: reflection_macro.splits option.splits)

lemma is_polymorphic_with_initialize [simp]:
  "is_polymorphic (with_initialize h ct) T = is_polymorphic ct T"
proof (cases T)
  case (TClass c)
  have "(case lookup_class (with_initialize h ct) c of Some d \<Rightarrow> polymorphic d | None \<Rightarrow> False)
      = (case lookup_class ct c of Some d \<Rightarrow> polymorphic d | None \<Rightarrow> False)"
    by (induction ct) (auto simp: with_initialize_def)
  with TClass show ?thesis by simp
qed simp_all

lemma Reflectable_with_initialize [simp]:
  "Reflectable (with_initialize h ct) T = Reflectable ct T"
  by (cases T) simp_all

lemma polymorphic_type_name_with_initialize [simp]:
  "polymorphic_type_name (with_initialize h ct) T obj = polymorphic_type_name ct T obj"
  by (cases obj) simp_all

text \<open>No equation of \<open>save\<close> mentions \<open>initialize\<close>: whatever the hooks of the classes
  are, \<open>save\<close> computes the same.\<close>

lemma save_with_initialize:
  "save (with_initialize h ct) aw T obj archive = save ct aw T obj archive"
  "save_container (with_initialize h ct) aw E items i archive
     = save_container ct aw E items i archive"
  "save_map (with_initialize h ct) aw K V pairs i archive = save_map ct aw K V pairs i archive"
  "save_tuple_impl (with_initialize h ct) aw Ts items i archive
     = save_tuple_impl ct aw Ts items i archive"
  "save_properties (with_initialize h ct) aw props members archive
     = save_properties ct aw props members archive"
  "save_member (with_initialize h ct) aw member_type n members archive
     = save_member ct aw member_type n members archive"
proof (induction ct aw T obj archive and ct aw E items i archive and ct aw K V pairs i archive
    and ct aw Ts items i archive and ct aw props members archive
    and ct aw member_type n members archive
    rule: save_save_container_save_map_save_tuple_impl_save_properties_save_member.induct)
qed (simp_all del: is_polymorphic.simps polymorphic_type_name.simps Reflectable.simps
       properties.simps
     split: ty.splits sum.splits option.splits cong: sum.case_cong)

text \<open>
  C8. Loading a reflectable object of class \<open>T\<close> whose stored class name is not the empty
  sentinel: once the loop over the descriptor has loaded the members, giving \<open>members'\<close>,
  the hook of \<open>T\<close> is applied to them, once, and its result is the loaded object. Saving
  never applies a hook: with the hook of every class replaced by any other function, \<open>save\<close>
  returns the same.
\<close>

theorem initialize_once_after_members_never_on_save:
  assumes "properties ct T = Some props" and "lookup_class ct T = Some d"
    and "aw_pop_class_name aw archive = Inr (class_name, archive1)"
    and "class_name \<noteq> EMPTY_NAME"
    and "load_properties aw (load ct aw fuel) props members archive1 = Inr (members', archive2)"
  shows "load ct aw (Suc fuel) (TClass T) (VObject dyn members) archive
           = Inr (VObject dyn (initialize d members'), archive2)
       \<and> (\<forall>T' obj' archive'.
            save (with_initialize h ct) aw T' obj' archive' = save ct aw T' obj' archive')"
  using assms properties_nonempty [OF assms(1)]
  by (simp add: load_object_def save_with_initialize)

text \<open>The class \<^verbatim>\<open>counted\<close> is loaded from an archive that holds \<open>calls = 0\<close>: the loaded
  object has \<open>calls = 1\<close>. Saving an object with \<open>calls = 1\<close> writes \<open>calls = 1\<close>.\<close>

theorem initialize_once_witness:
  "load [counted] (json_wrapper []) (Suc 1) (TClass ''counted'')
       (VObject ''counted'' [(''value'', VInt 0), (''calls'', VInt 0)])
       (JObject [(''Class'', JString ''counted''), (''value'', JInt 5), (''calls'', JInt 0)])
     = Inr (VObject ''counted'' [(''value'', VInt 5), (''calls'', VInt 1)],
            JObject [(''Class'', JString ''counted''), (''value'', JInt 5), (''calls'', JInt 0)])
   \<and> save (with_initialize (\<lambda>d members. []) [counted]) (json_wrapper []) (TClass ''counted'')
       (VObject ''counted'' [(''value'', VInt 5), (''calls'', VInt 1)]) JNull
     = Inr (JObject [(''Class'', JString ''counted''), (''value'', JInt 5), (''calls'', JInt 1)])"
proof -
  let ?J = "JObject [(''Class'', JString ''counted''), (''value'', JInt 5), (''calls'', JInt 0)]"
  have p: "properties [counted] ''counted''
      = Some [reflection_impl ''value'' TInt, reflection_impl ''calls'' TInt]"
    by (simp add: counted_def GET_ARG_COUNT_def REFLECTION_def)
  have l: "lookup_class [counted] ''counted'' = Some counted"
    by (simp add: counted_def)
  have c: "aw_pop_class_name (json_wrapper []) ?J = Inr (''counted'', ?J)"
    by (simp add: json_pop_class_name_def CLASS_NAME_def)
  have n: "''counted'' \<noteq> EMPTY_NAME"
    by (simp add: EMPTY_NAME_def)
  have m: "load_properties (json_wrapper []) (load [counted] (json_wrapper []) 1)
        [reflection_impl ''value'' TInt, reflection_impl ''calls'' TInt]
        [(''value'', VInt 0), (''calls'', VInt 0)] ?J
      = Inr ([(''value'', VInt 5), (''calls'', VInt 0)], ?J)"
    by simp
  have s: "save [counted] (json_wrapper []) (TClass ''counted'')
       (VObject ''counted'' [(''value'', VInt 5), (''calls'', VInt 1)]) JNull
     = Inr (JObject [(''Class'', JString ''counted''), (''value'', JInt 5), (''calls'', JInt 1)])"
    by code_simp
  have i: "initialize counted [(''value'', VInt 5), (''calls'', VInt 0)]
      = [(''value'', VInt 5), (''calls'', VInt 1)]"
    by (simp add: counted_def)
  from initialize_once_after_members_never_on_save
         [OF p l c n m, of "''counted''" "\<lambda>d members. []"]
  have A: "load [counted] (json_wrapper []) (Suc 1) (TClass ''counted'')
       (VObject ''counted'' [(''value'', VInt 0), (''calls'', VInt 0)]) ?J
     = Inr (VObject ''counted''
              (initialize counted [(''value'', VInt 5), (''calls'', VInt 0)]), ?J)"
    and B: "\<And>T' obj' archive'.
       save (with_initialize (\<lambda>d members. []) [counted]) (json_wrapper []) T' obj' archive'
         = save [counted] (json_wrapper []) T' obj' archive'"
    by blast+
  show ?thesis
    unfolding A B s i by simp
qed

section \<open>The tag of a variant\<close>

text \<open>
  C9, as stated, fails in the byte stream. Saving a \<^verbatim>\<open>std::variant<int, bool>\<close> that holds
  \<^verbatim>\<open>true\<close> (tag 1) into an empty stream writes the tag as an \<^verbatim>\<open>unsigned int\<close> item,
  whose payload is four bytes, not one.
\<close>

theorem variant_tag_in_stream_is_not_one_byte:
  "save [] (binary_wrapper no_cstr_operators []) (TVariant [TInt, TBool])
       (VVariant 1 (VBool True)) []
     = Inr [item_uint 1, item_bool True]
   \<and> payload_bytes (item_uint 1) \<noteq> 1"
  by code_simp

text \<open>
  C9, amended. For a variant of arity at most 255 with active tag \<open>i\<close>, the tag is narrowed
  to an unsigned 8-bit integer, whose value is \<open>i\<close>, and handed to \<^verbatim>\<open>push_index\<close> as an
  \<^verbatim>\<open>unsigned int\<close>. The byte stream writes it as one \<^verbatim>\<open>unsigned int\<close> item, the very item
  \<^verbatim>\<open>resize\<close> writes for a count of \<open>i\<close> (four payload bytes), and goes on with the active
  alternative; JSON stores the number \<open>i\<close> under \<^verbatim>\<open>"Index"\<close> and the alternative under
  \<^verbatim>\<open>"Value"\<close>. A variant type of more than 255 alternatives is rejected at compile time,
  by \<open>save\<close> and by \<open>load\<close>, in every format.
\<close>

theorem variant_tag_encoding:
  "(length Ts \<le> 255 \<and> i < length Ts \<longrightarrow>
      unat (ucast (of_nat i :: 8 word) :: 32 word) = i
    \<and> save ct (binary_wrapper sc reg) (TVariant Ts) (VVariant i x) archive
        = save ct (binary_wrapper sc reg) (Ts ! i) x
            (archive @ [item_uint (ucast (of_nat i :: 8 word))])
    \<and> binary_resize i archive = Inr (archive @ [item_uint (ucast (of_nat i :: 8 word))])
    \<and> payload_bytes (item_uint (ucast (of_nat i :: 8 word))) = 4
    \<and> save ct (json_wrapper reg) (TVariant Ts) (VVariant i x) JNull
        = (case save ct (json_wrapper reg) (Ts ! i) x JNull of
             Inl e \<Rightarrow> Inl e
           | Inr c \<Rightarrow> Inr (JObject [(''Index'', JInt (int i)), (''Value'', c)])))
   \<and> (255 < length Ts \<longrightarrow>
      save ct aw (TVariant Ts) (VVariant i x) archive' = Inl compile_error
    \<and> save ct aw (TVariant Ts) VValueless archive' = Inl compile_error
    \<and> load ct aw (Suc fuel) (TVariant Ts) obj archive' = Inl compile_error)"
  by (auto simp: narrow_index unat_index binary_push_index_def stream_insert_def
        binary_resize_def INDEX_NAME_def VALUE_NAME_def json_push_index_def
        load_variant_def Let_def uint_nat
      split: sum.splits)

theorem variant_tag_encoding_witness:
  "save [] (binary_wrapper no_cstr_operators []) (TVariant [TInt, TBool, TString])
       (VVariant 2 (VString ''hello'')) []
     = Inr [item_uint 2, item_string ''hello'']
   \<and> save [] (json_wrapper []) (TVariant [TInt, TBool, TString])
       (VVariant 2 (VString ''hello'')) JNull
     = Inr (JObject [(''Index'', JInt 2), (''Value'', JString ''hello'')])
   \<and> load [] (json_wrapper []) (Suc 0) (TVariant (replicate 256 TInt)) VValueless JNull
     = Inl compile_error"
  using variant_tag_encoding
          [of "[TInt, TBool, TString]" 2 "[]" no_cstr_operators "[]" "VString ''hello''" "[]"]
        variant_tag_encoding
          [of "replicate 256 TInt" 0 "[]" no_cstr_operators "[]" "VInt 0" "[]"
              "json_wrapper []" JNull 0 VValueless]
  by (simp add: stream_insert_def narrow_index)

section \<open>C strings\<close>

text \<open>
  C10. A \<^verbatim>\<open>const char*\<close> is saved by every wrapper: JSON stores a null pointer as null and
  any other as a string; XML writes nothing for a null pointer and the text otherwise; the
  byte stream hands the pointer to the stream's own inserter (the stream class is not among
  the sources: its inserter is whatever \<open>cstr_inserter\<close> says). Loading a \<^verbatim>\<open>const char*\<close> is
  rejected at compile time by the \<^verbatim>\<open>static_assert\<close> of the JSON and of the XML wrapper, and
  in the byte stream by the lack of an extractor.
\<close>

theorem c_string_saved_never_loaded:
  assumes "cstr_inserter sc = Some ins" and "cstr_extractor sc = None"
  shows "save ct (json_wrapper reg) TCString (VCString None) j = Inr JNull
       \<and> save ct (json_wrapper reg) TCString (VCString (Some s)) j = Inr (JString s)
       \<and> save ct (xml_wrapper reg) TCString (VCString None) (r, st) = Inr (r, st)
       \<and> save ct (xml_wrapper reg) TCString (VCString (Some s)) (r, st)
           = Inr (r, st\<lparr>nodes := text_set (nodes st) (resolve r st) (xml_chars s)\<rparr>)
       \<and> save ct (binary_wrapper sc reg) TCString (VCString p) stream = ins p stream
       \<and> load ct (json_wrapper reg) (Suc fuel) TCString obj j = Inl compile_error
       \<and> load ct (xml_wrapper reg) (Suc fuel) TCString obj (r, st) = Inl compile_error
       \<and> load ct (binary_wrapper sc reg) (Suc fuel) TCString obj stream = Inl compile_error"
  using assms by simp

theorem c_string_witness:
  "save [] (json_wrapper []) TCString (VCString None) JNull = Inr JNull
   \<and> save [] (json_wrapper []) TCString (VCString (Some ''C-style string'')) JNull
       = Inr (JString ''C-style string'')
   \<and> save [] (binary_wrapper cstr_as_string []) TCString (VCString (Some ''C-style string'')) []
       = Inr [item_string ''C-style string'']
   \<and> load [] (json_wrapper []) (Suc 0) TCString (VCString None) (JString ''C-style string'')
       = Inl compile_error
   \<and> load [] (xml_wrapper []) (Suc 0) TCString (VCString None) xml_buffer = Inl compile_error
   \<and> load [] (binary_wrapper cstr_as_string []) (Suc 0) TCString (VCString None)
         [item_string ''C-style string'']
       = Inl compile_error"
  using c_string_saved_never_loaded
          [of cstr_as_string
              "\<lambda>obj archive. case obj of
                                None \<Rightarrow> Inl undefined_behaviour
                              | Some s \<Rightarrow> stream_insert (item_string s) archive"
              "[]" "[]" JNull "''C-style string''" "node_variable (Some 0)" "snd xml_buffer"
              "Some ''C-style string''" "[]" 0 "VCString None"]
  by (simp add: cstr_as_string_def stream_insert_def xml_buffer_def)

end
